theory Spec2Isabelle
  imports Main "HOL-Library.Sublist" "HOL-Library.Char_ord" "HOL-Library.List_Lexorder"
begin

section \<open>Python values used by wit\<close>

text \<open>
  Python strings are modelled as \<^typ>\<open>string\<close>. The comparison operators of
  Python on \<open>str\<close> are the lexicographic order on the characters, which is the order
  that \<^theory_text>\<open>List_Lexorder\<close> and \<^theory_text>\<open>Char_ord\<close> put on \<^typ>\<open>string\<close>.
\<close>

text \<open>
  Every exception that the modelled code can raise is a value. \<open>SystemExit msg n\<close>
  stands for \<^verbatim>\<open>log.error(msg); sys.exit(n)\<close>. \<open>TypeError\<close> is what Python raises
  when a class whose \<^verbatim>\<open>__init__\<close> has required parameters is instantiated with
  none. \<open>OtherError\<close> is any exception raised inside code that is outside the modelled
  files.
\<close>

datatype error =
    GitError string
  | GitCommitNotFound
  | BadSource string string
  | NotAncestorError
  | TypeError
  | JSONDecodeError
  | KeyError string
  | SystemExit string int
  | OtherError string

text \<open>\<^verbatim>\<open>str.rstrip()\<close>: removes trailing white space. A \<^typ>\<open>char\<close> stands
  for one of the first 256 code points; those that Python takes for white space are listed
  (the last two are U+0085 and U+00A0).\<close>

definition isspace :: "char \<Rightarrow> bool" where
  "isspace c \<longleftrightarrow>
     of_char c \<in> {9, 10, 11, 12, 13, 28, 29, 30, 31, 32, 133, 160 :: nat}"

definition rstrip :: "string \<Rightarrow> string" where
  "rstrip s = rev (dropWhile isspace (rev s))"

text \<open>\<^verbatim>\<open>sub in s\<close> on strings.\<close>

fun contains :: "string \<Rightarrow> string \<Rightarrow> bool" where
  "contains sub [] = (sub = [])"
| "contains sub (c # cs) = (prefix sub (c # cs) \<or> contains sub cs)"

text \<open>\<^verbatim>\<open>sep.join(xs)\<close>.\<close>

fun join :: "string \<Rightarrow> string list \<Rightarrow> string" where
  "join sep [] = []"
| "join sep [x] = x"
| "join sep (x # y # ys) = x @ sep @ join sep (y # ys)"

text \<open>\<^verbatim>\<open>str(n)\<close> for an integer.\<close>

fun str_nat :: "nat \<Rightarrow> string" where
  "str_nat n =
     (if n < 10 then [''0123456789'' ! n]
      else str_nat (n div 10) @ [''0123456789'' ! (n mod 10)])"

declare str_nat.simps [simp del]

definition str_int :: "int \<Rightarrow> string" where
  "str_int i = (if i < 0 then CHR ''-'' # str_nat (nat (- i)) else str_nat (nat i))"

text \<open>\<^verbatim>\<open>s.replace(old, new)\<close>: every non-overlapping occurrence of \<open>old\<close>,
  scanning from the left.\<close>

function replace :: "string \<Rightarrow> string \<Rightarrow> string \<Rightarrow> string" where
  "replace old new [] = (if old = [] then new else [])"
| "replace old new (c # cs) =
     (if old = [] then new @ c # replace old new cs
      else if prefix old (c # cs) then new @ replace old new (drop (length old) (c # cs))
      else c # replace old new cs)"
  by pat_completeness auto
termination
  by (relation "measure (\<lambda>(old, new, s). length s)") auto

text \<open>\<^verbatim>\<open>s.split(sep)\<close> for a one-character separator.\<close>

fun split :: "char \<Rightarrow> string \<Rightarrow> string list" where
  "split sep [] = [[]]"
| "split sep (c # cs) =
     (if c = sep then [] # split sep cs
      else (case split sep cs of [] \<Rightarrow> [[c]] | y # ys \<Rightarrow> (c # y) # ys))"

text \<open>\<^verbatim>\<open>Path(path).name\<close> on a POSIX system: the last component of the path, where
  empty components and \<open>.\<close> components do not count; the empty string when there is
  none.\<close>

definition Path_name :: "string \<Rightarrow> string" where
  "Path_name path =
     (case filter (\<lambda>s. s \<noteq> [] \<and> s \<noteq> ''.'') (split CHR ''/'' path) of
        [] \<Rightarrow> []
      | x # xs \<Rightarrow> last (x # xs))"

section \<open>gitrepo.py\<close>

text \<open>
  The result of \<^verbatim>\<open>subprocess.run\<close> (a \<open>CompletedProcess\<close>).
\<close>

record proc =
  args :: "string list"
  returncode :: int
  stdout :: string
  stderr :: string

text \<open>
  The Git executable and the file system are outside the program. A run of a command is
  a transition of an outside world \<open>'w\<close>: given the command line and the working
  directory (\<open>None\<close> when the caller's directory is inherited), it yields the exit
  status, the standard output and the standard error, and the next world.
\<close>

type_synonym 'w subprocess =
  "string list \<Rightarrow> string option \<Rightarrow> 'w \<Rightarrow> (int \<times> string \<times> string) \<times> 'w"

text \<open>A \<open>GitRepo\<close> object. The objects that \<^verbatim>\<open>workspace.py\<close> handles carry
  \<open>source\<close> and \<open>revision\<close> besides \<open>name\<close> and \<open>path\<close>.\<close>

record git_repo =
  name :: string
  path :: string
  source :: string
  revision :: string

definition PKG_DEPENDENCY_FILE :: string where
  "PKG_DEPENDENCY_FILE = ''wit-manifest.json''"

definition git_command ::
  "'w subprocess \<Rightarrow> git_repo \<Rightarrow> string list \<Rightarrow> 'w \<Rightarrow> proc \<times> 'w" where
  "git_command run self as w =
     (case run (''git'' # as) (Some (path self)) w of
        ((rc, out, err), w') \<Rightarrow>
          (\<lparr>args = ''git'' # as, returncode = rc, stdout = out, stderr = err\<rparr>, w'))"

definition git_check :: "proc \<Rightarrow> error + int" where
  "git_check p =
     (if returncode p \<noteq> 0 then
        Inl (GitError
          (''Command ['' @ join '' '' (args p) @ ''] exited with non-zero exit status [''
             @ str_int (returncode p) @ '']'' @ [CHR 10]
           @ ''stdout: ['' @ rstrip (stdout p) @ '']'' @ [CHR 10]
           @ ''stderr: ['' @ rstrip (stderr p) @ '']'' @ [CHR 10]))
      else Inr (returncode p))"

definition fetch ::
  "'w subprocess \<Rightarrow> git_repo \<Rightarrow> string \<Rightarrow> 'w \<Rightarrow> (error + bool) \<times> 'w" where
  "fetch run self src w =
     (case git_command run self [''fetch'', src] w of
        (p, w1) \<Rightarrow>
          (case git_command run self [''fetch'', ''--all''] w1 of
             (_, w2) \<Rightarrow>
               (case git_check p of
                  Inl e \<Rightarrow>
                    if contains ''does not appear to be a git repository'' (stderr p)
                    then (Inl TypeError, w2)
                    else (Inl e, w2)
                | Inr _ \<Rightarrow> (Inr (returncode p = 0), w2))))"

definition get_commit ::
  "'w subprocess \<Rightarrow> git_repo \<Rightarrow> string \<Rightarrow> 'w \<Rightarrow> (error + string) \<times> 'w" where
  "get_commit run self commit w =
     (case git_command run self [''rev-parse'', commit] w of
        (p, w1) \<Rightarrow>
          (case git_check p of
             Inr _ \<Rightarrow> (Inr (rstrip (stdout p)), w1)
           | Inl _ \<Rightarrow>
               (case git_command run self [''rev-parse'', ''origin/'' @ commit] w1 of
                  (p', w2) \<Rightarrow>
                    (case git_check p' of
                       Inl e \<Rightarrow> (Inl e, w2)
                     | Inr _ \<Rightarrow> (Inr (rstrip (stdout p')), w2)))))"

definition get_head_commit ::
  "'w subprocess \<Rightarrow> git_repo \<Rightarrow> 'w \<Rightarrow> (error + string) \<times> 'w" where
  "get_head_commit run self w = get_commit run self ''HEAD'' w"

definition commit_to_time ::
  "'w subprocess \<Rightarrow> git_repo \<Rightarrow> string \<Rightarrow> 'w \<Rightarrow> (error + string) \<times> 'w" where
  "commit_to_time run self hash w =
     (case git_command run self [''log'', ''-n1'', ''--format=%ct'', hash] w of
        (p, w1) \<Rightarrow>
          (case git_check p of
             Inl e \<Rightarrow> (Inl e, w1)
           | Inr _ \<Rightarrow> (Inr (rstrip (stdout p)), w1)))"

text \<open>\<^verbatim>\<open>current or self.get_head_commit()\<close>: the empty string is false in Python,
  as \<open>None\<close> is, so \<open>HEAD\<close> is resolved when \<open>current\<close> is absent or empty.\<close>

definition is_ancestor ::
  "'w subprocess \<Rightarrow> git_repo \<Rightarrow> string \<Rightarrow> string option \<Rightarrow> 'w \<Rightarrow> (error + bool) \<times> 'w" where
  "is_ancestor run self ancestor current w =
     (case (case current of
              Some c \<Rightarrow> if c \<noteq> [] then (Inr c, w) else get_head_commit run self w
            | None \<Rightarrow> get_head_commit run self w) of
        (Inl e, w1) \<Rightarrow> (Inl e, w1)
      | (Inr cur, w1) \<Rightarrow>
          (case git_command run self [''merge-base'', ''--is-ancestor'', ancestor, cur] w1 of
             (p, w2) \<Rightarrow> (Inr (returncode p = 0), w2)))"

definition path_to_name :: "string \<Rightarrow> string" where
  "path_to_name p = replace ''.git'' [] (Path_name p)"

definition is_git_repo :: "'w subprocess \<Rightarrow> string \<Rightarrow> 'w \<Rightarrow> bool \<times> 'w" where
  "is_git_repo run p w =
     (case run [''git'', ''ls-remote'', ''--exit-code'', p] None w of
        ((rc, out, err), w') \<Rightarrow> (rc = 0, w'))"

text \<open>
  \<^verbatim>\<open>json.loads\<close> belongs to the Python library and is a parameter of the model. The
  values it produces:
\<close>

datatype json =
    JNull
  | JBool bool
  | JNumber int
  | JString string
  | JArray "json list"
  | JObject "(string \<times> json) list"

record dependency =
  dep_name :: string
  dep_source :: string
  specified_revision :: string
  message :: "string option"

type_synonym manifest = "dependency list"

text \<open>
  Modelled from the spec: \<^verbatim>\<open>Manifest.process_manifest\<close> of \<^verbatim>\<open>manifest.py\<close>, which
  is not among the source files. It constructs a Manifest, an ordered sequence of
  Dependency declarations, from an already parsed array of objects with the keys
  \<open>name\<close>, \<open>source\<close>, \<open>commit\<close> and the optional \<open>message\<close>; unknown keys
  are ignored and a missing \<open>name\<close> is derived from \<open>source\<close>.
\<close>

definition string_at :: "(string \<times> json) list \<Rightarrow> string \<Rightarrow> error + string" where
  "string_at kv k =
     (case map_of kv k of
        None \<Rightarrow> Inl (KeyError k)
      | Some (JString s) \<Rightarrow> Inr s
      | Some _ \<Rightarrow> Inl TypeError)"

fun dependency_of_json :: "json \<Rightarrow> error + dependency" where
  "dependency_of_json (JObject kv) =
     (case string_at kv ''source'' of
        Inl e \<Rightarrow> Inl e
      | Inr s \<Rightarrow>
          (case string_at kv ''commit'' of
             Inl e \<Rightarrow> Inl e
           | Inr c \<Rightarrow>
               Inr \<lparr>dep_name = (case string_at kv ''name'' of Inr n \<Rightarrow> n | Inl _ \<Rightarrow> path_to_name s),
                    dep_source = s,
                    specified_revision = c,
                    message = (case string_at kv ''message'' of Inr m \<Rightarrow> Some m | Inl _ \<Rightarrow> None)\<rparr>))"
| "dependency_of_json _ = Inl TypeError"

fun process_entries :: "json list \<Rightarrow> error + manifest" where
  "process_entries [] = Inr []"
| "process_entries (j # js) =
     (case dependency_of_json j of
        Inl e \<Rightarrow> Inl e
      | Inr d \<Rightarrow> (case process_entries js of Inl e \<Rightarrow> Inl e | Inr ds \<Rightarrow> Inr (d # ds)))"

fun process_manifest :: "json \<Rightarrow> error + manifest" where
  "process_manifest (JArray js) = process_entries js"
| "process_manifest _ = Inl TypeError"

definition read_manifest_from_commit ::
  "'w subprocess \<Rightarrow> (string \<Rightarrow> error + json) \<Rightarrow> git_repo \<Rightarrow> string \<Rightarrow> 'w \<Rightarrow>
   (error + manifest) \<times> 'w" where
  "read_manifest_from_commit run json_loads self rvsn w =
     (case git_command run self [''show'', rvsn @ '':'' @ PKG_DEPENDENCY_FILE] w of
        (p, w1) \<Rightarrow>
          (case (if returncode p \<noteq> 0 then Inr (JArray []) else json_loads (stdout p)) of
             Inl e \<Rightarrow> (Inl e, w1)
           | Inr json_content \<Rightarrow> (process_manifest json_content, w1)))"

text \<open>
  To speak about which commands a function runs, and in which order, any world can be
  paired with a log of the command lines that were run in it.
\<close>

definition logged :: "'w subprocess \<Rightarrow> (string list list \<times> 'w) subprocess" where
  "logged run cmd cwd lw =
     (case run cmd cwd (snd lw) of (r, w') \<Rightarrow> (r, (fst lw @ [cmd], w')))"

section \<open>workspace.py\<close>

text \<open>
  The package objects of \<^verbatim>\<open>workspace.py\<close> answer \<^verbatim>\<open>commit_to_time\<close> and
  \<^verbatim>\<open>is_ancestor\<close> as \<open>GitRepo\<close> above does. Their other methods come from files
  that are not modelled; they are parameters. Each may raise, and each may change the
  outside world. \<^verbatim>\<open>find_source\<close> and \<^verbatim>\<open>checkout\<close> change fields of the object;
  the model returns the changed object.
\<close>

record 'w env =
  subprocess_run :: "'w subprocess"
  get_dependencies :: "git_repo \<Rightarrow> string \<Rightarrow> 'w \<Rightarrow> (error + git_repo list) \<times> 'w"
  find_source :: "git_repo \<Rightarrow> string list \<Rightarrow> 'w \<Rightarrow> (error + git_repo) \<times> 'w"
  clone :: "git_repo \<Rightarrow> 'w \<Rightarrow> (error + unit) \<times> 'w"
  checkout :: "git_repo \<Rightarrow> 'w \<Rightarrow> (error + git_repo) \<times> 'w"

text \<open>A \<open>WorkSpace\<close> object: \<open>self.path\<close>, the packages of \<open>self.manifest\<close>,
  \<open>self.lock\<close> and \<open>self.repo_paths\<close>.\<close>

record workspace =
  ws_path :: string
  ws_manifest :: "git_repo list"
  ws_lock :: "git_repo list option"
  repo_paths :: "string list"

text \<open>
  The file \<^verbatim>\<open>wit-lock.json\<close> of the workspace is kept apart from the rest of the outside
  world, so that a write to it is visible. Modelled from the spec: \<^verbatim>\<open>LockFile.write\<close>
  of \<^verbatim>\<open>lock.py\<close>, which is not among the source files, replaces the previous contents of
  the file by the sequence of resolved packages.
\<close>

record 'w disk =
  outside :: 'w
  lockfile :: "git_repo list option"

type_synonym queue_item = "string \<times> string \<times> string \<times> git_repo"

text \<open>The three local variables of the resolution loop. The version selector map is a
  Python \<open>dict\<close>, whose keys keep the order of their first insertion.\<close>

record loop_state =
  queue :: "queue_item list"
  version_selector_map :: "(string \<times> string \<times> git_repo) list"
  source_map :: "string \<rightharpoonup> string"

definition conflicting_paths_msg :: "string \<Rightarrow> string \<Rightarrow> string \<Rightarrow> string" where
  "conflicting_paths_msg n s s' =
     ''Repo ['' @ n @ ''] has multiple conflicting paths:'' @ [CHR 10]
       @ ''  '' @ s @ [CHR 10] @ ''  '' @ s' @ [CHR 10]"

definition dependent_newer_msg :: "string \<Rightarrow> string" where
  "dependent_newer_msg n =
     ''Repo ['' @ n @ ''] has a dependent that is newer than the source. ''
       @ ''This should not happen.'' @ [CHR 10]"

text \<open>Step 2: one tuple per package of the root manifest.\<close>

fun seed ::
  "'w env \<Rightarrow> git_repo list \<Rightarrow> queue_item list \<times> (string \<rightharpoonup> string) \<Rightarrow> 'w \<Rightarrow>
   (error + queue_item list \<times> (string \<rightharpoonup> string)) \<times> 'w" where
  "seed env [] (q, sm) w = (Inr (q, sm), w)"
| "seed env (repo # repos) (q, sm) w =
     (case commit_to_time (subprocess_run env) repo (revision repo) w of
        (Inl e, w1) \<Rightarrow> (Inl e, w1)
      | (Inr commit_time, w1) \<Rightarrow>
          seed env repos
            (q @ [(commit_time, revision repo, name repo, repo)],
             sm(name repo \<mapsto> source repo)) w1)"

text \<open>Steps 7 to 11: the loop over the dependencies of the package just selected.
  \<open>commit_time\<close> is the commit time of that package.\<close>

fun examine ::
  "'w env \<Rightarrow> workspace \<Rightarrow> string \<Rightarrow> git_repo list \<Rightarrow>
   queue_item list \<times> (string \<rightharpoonup> string) \<Rightarrow> 'w \<Rightarrow>
   (error + queue_item list \<times> (string \<rightharpoonup> string)) \<times> 'w" where
  "examine env self commit_time [] (q, sm) w = (Inr (q, sm), w)"
| "examine env self commit_time (d # ds) (q, sm) w =
     (case find_source env d (repo_paths self) w of
        (Inl e, w1) \<Rightarrow> (Inl e, w1)
      | (Inr dep_repo, w1) \<Rightarrow>
          if (case sm (name dep_repo) of
                None \<Rightarrow> False
              | Some s \<Rightarrow> source dep_repo \<noteq> s)
          then (Inl (SystemExit
                       (conflicting_paths_msg (name dep_repo) (source dep_repo)
                          (the (sm (name dep_repo)))) 1), w1)
          else
            (case is_git_repo (subprocess_run env) (path dep_repo) w1 of
               (cloned, w2) \<Rightarrow>
                 (case (if \<not> cloned then clone env dep_repo w2 else (Inr (), w2)) of
                    (Inl e, w3) \<Rightarrow> (Inl e, w3)
                  | (Inr _, w3) \<Rightarrow>
                      (case commit_to_time (subprocess_run env) dep_repo
                              (revision dep_repo) w3 of
                         (Inl e, w4) \<Rightarrow> (Inl e, w4)
                       | (Inr dep_commit_time, w4) \<Rightarrow>
                           if dep_commit_time > commit_time
                           then (Inl (SystemExit (dependent_newer_msg (name dep_repo)) 1), w4)
                           else examine env self commit_time ds
                                  (q @ [(dep_commit_time, revision dep_repo,
                                         name dep_repo, dep_repo)],
                                   sm(name dep_repo \<mapsto> source dep_repo)) w4))))"

text \<open>Steps 3 to 11: one turn of the \<^verbatim>\<open>while queue:\<close> loop, for a queue that is not
  empty. \<^verbatim>\<open>queue.pop()\<close> takes the last tuple; \<^verbatim>\<open>queue.sort\<close> is stable.\<close>

definition update_step ::
  "'w env \<Rightarrow> workspace \<Rightarrow> loop_state \<Rightarrow> 'w \<Rightarrow> (error + loop_state) \<times> 'w" where
  "update_step env self st w =
     (case last (queue st) of
        (commit_time, commit, reponame, repo) \<Rightarrow>
          (case map_of (version_selector_map st) reponame of
             Some (selected_commit, selected_repo) \<Rightarrow>
               (case is_ancestor (subprocess_run env) repo commit (Some selected_commit) w of
                  (Inl e, w1) \<Rightarrow> (Inl e, w1)
                | (Inr anc, w1) \<Rightarrow>
                    if \<not> anc then (Inl NotAncestorError, w1)
                    else (Inr (st\<lparr>queue := butlast (queue st)\<rparr>), w1))
           | None \<Rightarrow>
               (case get_dependencies env repo (ws_path self) w of
                  (Inl e, w1) \<Rightarrow> (Inl e, w1)
                | (Inr dependencies, w1) \<Rightarrow>
                    (case examine env self commit_time dependencies
                            (butlast (queue st), source_map st) w1 of
                       (Inl e, w2) \<Rightarrow> (Inl e, w2)
                     | (Inr (q, sm), w2) \<Rightarrow>
                         (Inr \<lparr>queue = sort_key (\<lambda>tup. fst tup) q,
                               version_selector_map =
                                 version_selector_map st @ [(reponame, commit, repo)],
                               source_map = sm\<rparr>, w2)))))"

text \<open>The \<^verbatim>\<open>while queue:\<close> loop. Nothing bounds the number of package names that the
  manifests can bring in, so the loop need not end: the result is \<open>None\<close> when it
  does not.\<close>

partial_function (option) update_loop ::
  "'w env \<Rightarrow> workspace \<Rightarrow> loop_state \<Rightarrow> 'w \<Rightarrow> ((error + loop_state) \<times> 'w) option" where
  "update_loop env self st w =
     (if queue st = [] then Some (Inr st, w)
      else
        (case update_step env self st w of
           (Inl e, w1) \<Rightarrow> Some (Inl e, w1)
         | (Inr st1, w1) \<Rightarrow> update_loop env self st1 w1))"

text \<open>Steps 1 to 12: the selection that \<^verbatim>\<open>update\<close> computes, as the state of the loop
  when the queue is empty.\<close>

definition update_select ::
  "'w env \<Rightarrow> workspace \<Rightarrow> 'w \<Rightarrow> ((error + loop_state) \<times> 'w) option" where
  "update_select env self w =
     (case seed env (ws_manifest self) ([], Map.empty) w of
        (Inl e, w1) \<Rightarrow> Some (Inl e, w1)
      | (Inr (q, sm), w1) \<Rightarrow>
          update_loop env self
            \<lparr>queue = sort_key (\<lambda>tup. fst tup) q, version_selector_map = [], source_map = sm\<rparr>
            w1)"

text \<open>
  \<^verbatim>\<open>wsroot / name\<close> of \<^verbatim>\<open>pathlib\<close> on a POSIX system, read as a string. A path
  is a root (\<open>/\<close>, or \<open>//\<close> for exactly two leading slashes, or none) and its
  components, among which empty ones and \<open>.\<close> do not count; an absolute \<open>name\<close>
  replaces \<open>wsroot\<close>; the path without root and components is written \<open>.\<close>.
\<close>

definition Path_root :: "string \<Rightarrow> string" where
  "Path_root p =
     (if prefix ''//'' p \<and> \<not> prefix ''///'' p then ''//''
      else if prefix ''/'' p then ''/''
      else [])"

definition Path_parts :: "string \<Rightarrow> string list" where
  "Path_parts p = filter (\<lambda>s. s \<noteq> [] \<and> s \<noteq> ''.'') (split CHR ''/'' p)"

definition path_join :: "string \<Rightarrow> string \<Rightarrow> string" where
  "path_join wsroot n =
     (let joined =
        (if prefix ''/'' n then Path_root n @ join ''/'' (Path_parts n)
         else Path_root wsroot @ join ''/'' (Path_parts wsroot @ Path_parts n))
      in if joined = [] then ''.'' else joined)"

text \<open>Step 14: check out every selected package, in the order of selection.\<close>

fun lock_packages ::
  "'w env \<Rightarrow> workspace \<Rightarrow> (string \<times> string \<times> git_repo) list \<Rightarrow> 'w \<Rightarrow>
   (error + git_repo list) \<times> 'w" where
  "lock_packages env self [] w = (Inr [], w)"
| "lock_packages env self ((reponame, commit, repo) # rest) w =
     (case checkout env
             \<lparr>name = name repo, path = path_join (ws_path self) (name repo),
              source = source repo, revision = commit\<rparr> w of
        (Inl e, w1) \<Rightarrow> (Inl e, w1)
      | (Inr lock_repo, w1) \<Rightarrow>
          (case lock_packages env self rest w1 of
             (Inl e, w2) \<Rightarrow> (Inl e, w2)
           | (Inr ps, w2) \<Rightarrow> (Inr (lock_repo # ps), w2)))"

text \<open>\<^verbatim>\<open>WorkSpace.update\<close>. It returns the workspace with its new \<open>lock\<close>.\<close>

definition update ::
  "'w env \<Rightarrow> workspace \<Rightarrow> 'w disk \<Rightarrow> ((error + workspace) \<times> 'w disk) option" where
  "update env self d =
     (case update_select env self (outside d) of
        None \<Rightarrow> None
      | Some (Inl e, w1) \<Rightarrow> Some (Inl e, d\<lparr>outside := w1\<rparr>)
      | Some (Inr st, w1) \<Rightarrow>
          (case lock_packages env self (version_selector_map st) w1 of
             (Inl e, w2) \<Rightarrow> Some (Inl e, d\<lparr>outside := w2\<rparr>)
           | (Inr new_lock, w2) \<Rightarrow>
               Some (Inr (self\<lparr>ws_lock := Some new_lock\<rparr>),
                     \<lparr>outside = w2, lockfile = Some new_lock\<rparr>)))"

section \<open>What a resolution asks and is answered\<close>

text \<open>
  To speak about what a run of \<open>update\<close> has asked of the outside world and what it
  was answered, any world can be paired with a record of events: each command that was
  run, with its working directory and its exit status; each manifest that
  \<open>get_dependencies\<close> has read, with the dependencies found; each source lookup that
  has succeeded, with the dependency before and after it. \<open>recording env\<close> answers
  as \<open>env\<close> does and adds the events at the end of the record.
\<close>

datatype event =
    Ran "string list" "string option" int
  | Read git_repo "git_repo list"
  | Looked git_repo git_repo

definition recording :: "'w env \<Rightarrow> (event list \<times> 'w) env" where
  "recording env =
     \<lparr>subprocess_run =
        (\<lambda>cmd cwd lw.
           (case subprocess_run env cmd cwd (snd lw) of
              ((rc, out, err), w') \<Rightarrow> ((rc, out, err), (fst lw @ [Ran cmd cwd rc], w')))),
      get_dependencies =
        (\<lambda>repo wsroot lw.
           (case get_dependencies env repo wsroot (snd lw) of
              (Inl e, w') \<Rightarrow> (Inl e, (fst lw, w'))
            | (Inr ds, w') \<Rightarrow> (Inr ds, (fst lw @ [Read repo ds], w')))),
      find_source =
        (\<lambda>repo paths lw.
           (case find_source env repo paths (snd lw) of
              (Inl e, w') \<Rightarrow> (Inl e, (fst lw, w'))
            | (Inr repo', w') \<Rightarrow> (Inr repo', (fst lw @ [Looked repo repo'], w')))),
      clone =
        (\<lambda>repo lw. (case clone env repo (snd lw) of (x, w') \<Rightarrow> (x, (fst lw, w')))),
      checkout =
        (\<lambda>repo lw. (case checkout env repo (snd lw) of (x, w') \<Rightarrow> (x, (fst lw, w'))))\<rparr>"

text \<open>
  \<open>tested log dir a c\<close>: the record holds a run of
  \<^verbatim>\<open>git merge-base --is-ancestor a c\<close> in the directory \<open>dir\<close> that ended with
  status zero, which is when \<open>is_ancestor\<close> answers yes. For the empty text \<open>c\<close>,
  in whose place \<open>is_ancestor\<close> takes the commit of \<open>HEAD\<close>, any second commit
  counts.
\<close>

definition tested :: "event list \<Rightarrow> string \<Rightarrow> string \<Rightarrow> string \<Rightarrow> bool" where
  "tested log dir a c \<longleftrightarrow>
     (\<exists>e \<in> set log.
        case e of
          Ran cmd cwd rc \<Rightarrow>
            rc = 0 \<and> cwd = Some dir
            \<and> (if c = [] then
                  length cmd = 5 \<and> take 4 cmd = [''git'', ''merge-base'', ''--is-ancestor'', a]
                else cmd = [''git'', ''merge-base'', ''--is-ancestor'', a, c])
        | Read p ds \<Rightarrow> False
        | Looked d d' \<Rightarrow> False)"

text \<open>
  The selection \<open>vsm\<close> has \<open>honoured\<close> a dependency \<open>d\<close> when it holds a
  commit for the name of \<open>d\<close>, and this commit is the revision of \<open>d\<close> or was
  tested, in the directory of \<open>d\<close>, to have the revision of \<open>d\<close> among its
  ancestors.
\<close>

definition honoured ::
  "event list \<Rightarrow> (string \<times> string \<times> git_repo) list \<Rightarrow> git_repo \<Rightarrow> bool" where
  "honoured log vsm d =
     (case map_of vsm (name d) of
        None \<Rightarrow> False
      | Some (c, p) \<Rightarrow> revision d = c \<or> tested log (path d) (revision d) c)"

text \<open>The dependencies that came out of the source lookups, in their order.\<close>

definition looked_up :: "event list \<Rightarrow> git_repo list" where
  "looked_up log =
     concat (map (\<lambda>e. case e of Looked d d' \<Rightarrow> [d'] | Ran cmd cwd rc \<Rightarrow> []
                        | Read p ds \<Rightarrow> []) log)"

text \<open>What a resolution has met: the packages of the root manifest and the dependencies
  that it has looked up.\<close>

definition met :: "workspace \<Rightarrow> event list \<Rightarrow> git_repo list" where
  "met self log = ws_manifest self @ looked_up log"

text \<open>\<open>followed log vsm\<close>: the manifest of every selected package has been read, and
  every dependency found in it has been looked up.\<close>

definition was_looked :: "event list \<Rightarrow> git_repo \<Rightarrow> bool" where
  "was_looked log d \<longleftrightarrow>
     (\<exists>e \<in> set log. case e of Looked d0 d' \<Rightarrow> d0 = d | Ran cmd cwd rc \<Rightarrow> False
                        | Read p ds \<Rightarrow> False)"

definition followed :: "event list \<Rightarrow> (string \<times> string \<times> git_repo) list \<Rightarrow> bool" where
  "followed log vsm \<longleftrightarrow>
     (\<forall>(n, c, p) \<in> set vsm.
        \<exists>e \<in> set log.
          case e of
            Read p0 ds \<Rightarrow> p0 = p \<and> (\<forall>d \<in> set ds. was_looked log d)
          | Ran cmd cwd rc \<Rightarrow> False
          | Looked d d' \<Rightarrow> False)"

text \<open>Of the packages of the root manifest that share a name, the seeding keeps the
  source of the last in the source map.\<close>

fun last_of_name :: "git_repo list \<Rightarrow> git_repo list" where
  "last_of_name [] = []"
| "last_of_name (r # rs) =
     (if name r \<in> name ` set rs then last_of_name rs else r # last_of_name rs)"

definition sourced :: "workspace \<Rightarrow> event list \<Rightarrow> git_repo list" where
  "sourced self log = last_of_name (ws_manifest self) @ looked_up log"

text \<open>An action is \<open>quiet\<close> when it only adds events to the record, and no source
  lookup among them.\<close>

definition quiet :: "event list \<Rightarrow> event list \<Rightarrow> bool" where
  "quiet log log' \<longleftrightarrow> prefix log log' \<and> looked_up log' = looked_up log"

text \<open>
  Two invariants of the loop. A dependency is \<open>accounted\<close> for when a tuple for it
  waits in the queue or the selection has honoured it. \<open>all_accounted\<close>: every
  package of the root manifest and every dependency looked up is accounted for, and the
  selection is followed. \<open>sources_recorded\<close>: the source map holds the source of the
  last root package of each name and of every dependency looked up.
\<close>

definition queued :: "loop_state \<Rightarrow> git_repo \<Rightarrow> bool" where
  "queued st d \<longleftrightarrow> (revision d, name d, d) \<in> set (map snd (queue st))"

definition accounted :: "event list \<Rightarrow> loop_state \<Rightarrow> git_repo \<Rightarrow> bool" where
  "accounted log st d \<longleftrightarrow> queued st d \<or> honoured log (version_selector_map st) d"

definition all_accounted :: "workspace \<Rightarrow> loop_state \<Rightarrow> event list \<Rightarrow> bool" where
  "all_accounted self st log \<longleftrightarrow>
     (\<forall>d \<in> set (met self log). accounted log st d)
     \<and> followed log (version_selector_map st)"

definition sources_recorded :: "workspace \<Rightarrow> loop_state \<Rightarrow> event list \<Rightarrow> bool" where
  "sources_recorded self st log \<longleftrightarrow>
     (\<forall>d \<in> set (sourced self log). source_map st (name d) = Some (source d))"

section \<open>Synthetic repositories\<close>

text \<open>
  Concrete outside worlds, on which the definitions above are run. \<open>git_rejects\<close> is
  a Git that ends every command with the given exit status and error text.
  \<open>synthetic_run\<close> answers \<^verbatim>\<open>git log -n1 --format=%ct\<close> from a table of commit
  times, \<^verbatim>\<open>git merge-base --is-ancestor\<close> from a table of ancestor pairs (a commit is
  its own ancestor), and finds every path to be a clone. \<open>synthetic_env\<close> adds the
  manifest of each package at each commit; source lookup, clone and checkout change
  nothing.
\<close>

definition git_rejects :: "int \<Rightarrow> string \<Rightarrow> unit subprocess" where
  "git_rejects rc err cmd cwd w = ((rc, [], err), w)"

definition synthetic_run ::
  "(string \<times> string) list \<Rightarrow> (string \<times> string) list \<Rightarrow> unit subprocess" where
  "synthetic_run ctimes ancestors cmd cwd w =
     (case cmd of
        [g, c1, c2, c3, c4] \<Rightarrow>
          if c1 = ''log'' then
            (case map_of ctimes c4 of
               Some t \<Rightarrow> ((0, t @ [CHR 10], []), w)
             | None \<Rightarrow> ((128, [], ''fatal: bad object '' @ c4 @ [CHR 10]), w))
          else if c1 = ''merge-base'' then
            ((if c3 = c4 \<or> (c3, c4) \<in> set ancestors then 0 else 1, [], []), w)
          else ((1, [], []), w)
      | [g, c1, c2, c3] \<Rightarrow> ((if c1 = ''ls-remote'' then 0 else 1, [], []), w)
      | _ \<Rightarrow> ((1, [], []), w))"

definition synthetic_env ::
  "(string \<times> string) list \<Rightarrow> (string \<times> string) list \<Rightarrow>
   ((string \<times> string) \<times> git_repo list) list \<Rightarrow> unit env" where
  "synthetic_env ctimes ancestors manifests =
     \<lparr>subprocess_run = synthetic_run ctimes ancestors,
      get_dependencies =
        (\<lambda>repo wsroot w.
           (Inr (case map_of manifests (name repo, revision repo) of
                   None \<Rightarrow> []
                 | Some ds \<Rightarrow> ds), w)),
      find_source = (\<lambda>repo paths w. (Inr repo, w)),
      clone = (\<lambda>repo w. (Inr (), w)),
      checkout = (\<lambda>repo w. (Inr repo, w))\<rparr>"

definition pkg :: "string \<Rightarrow> string \<Rightarrow> string \<Rightarrow> git_repo" where
  "pkg n s r = \<lparr>name = n, path = ''/ws/'' @ n, source = s, revision = r\<rparr>"

definition ws_of :: "git_repo list \<Rightarrow> workspace" where
  "ws_of ps = \<lparr>ws_path = ''/ws'', ws_manifest = ps, ws_lock = None, repo_paths = []\<rparr>"

definition no_lock :: "unit disk" where
  "no_lock = \<lparr>outside = (), lockfile = None\<rparr>"

text \<open>A package \<open>p\<close> committed on 9 September 2001 (epoch second 1000000000) that
  depends on a package \<open>c\<close> committed one second earlier.\<close>

definition env_older_child :: "unit env" where
  "env_older_child =
     synthetic_env [(''P1'', ''1000000000''), (''C1'', ''999999999'')] []
       [((''p'', ''P1''), [pkg ''c'' ''/srv/c.git'' ''C1''])]"

text \<open>The same packages with the two commit times exchanged: the dependency is one second
  newer than its parent.\<close>

definition env_newer_child :: "unit env" where
  "env_newer_child =
     synthetic_env [(''P1'', ''999999999''), (''C1'', ''1000000000'')] []
       [((''p'', ''P1''), [pkg ''c'' ''/srv/c.git'' ''C1''])]"

text \<open>The root manifest asks for \<open>a\<close> at \<open>A1\<close> (time 100) and \<open>b\<close> at
  \<open>B1\<close> (time 200); the manifest of \<open>b\<close> at \<open>B1\<close> asks for \<open>a\<close> at
  \<open>A2\<close> (time 150), a descendant of \<open>A1\<close>.\<close>

definition env_recency :: "unit env" where
  "env_recency =
     synthetic_env [(''A1'', ''100''), (''A2'', ''150''), (''B1'', ''200'')] [(''A1'', ''A2'')]
       [((''b'', ''B1''), [pkg ''a'' ''/srv/a.git'' ''A2''])]"

definition ws_recency :: workspace where
  "ws_recency = ws_of [pkg ''a'' ''/srv/a.git'' ''A1'', pkg ''b'' ''/srv/b.git'' ''B1'']"

text \<open>Two pairs of packages of the same shape, \<open>a\<close>, \<open>b\<close> and \<open>x\<close>, \<open>y\<close>: the
  root asks for \<open>a\<close> at \<open>A2\<close> (time 200) and \<open>b\<close> at \<open>B1\<close> (time 150), the
  manifest of \<open>b\<close> asks for \<open>a\<close> at \<open>A1\<close> (time 100), and \<open>A1\<close> is not an
  ancestor of \<open>A2\<close>.\<close>

definition env_diverged :: "unit env" where
  "env_diverged =
     synthetic_env
       [(''A1'', ''100''), (''A2'', ''200''), (''B1'', ''150''),
        (''X1'', ''100''), (''X2'', ''200''), (''Y1'', ''150'')] []
       [((''b'', ''B1''), [pkg ''a'' ''/srv/a.git'' ''A1'']),
        ((''y'', ''Y1''), [pkg ''x'' ''/srv/x.git'' ''X1''])]"



text \<open>Three states of the loop of \<open>update\<close> in \<open>env_recency\<close>: after the
  seeding and the first sort; before the last turn, when the tuple of \<open>a\<close> at
  \<open>A1\<close> is the only one left; and at the end.\<close>

definition st_seeded :: loop_state where
  "st_seeded =
     \<lparr>queue = [(''100'', ''A1'', ''a'', pkg ''a'' ''/srv/a.git'' ''A1''),
               (''200'', ''B1'', ''b'', pkg ''b'' ''/srv/b.git'' ''B1'')],
      version_selector_map = [],
      source_map = [''a'' \<mapsto> ''/srv/a.git'', ''b'' \<mapsto> ''/srv/b.git'']\<rparr>"

definition st_selected :: loop_state where
  "st_selected =
     \<lparr>queue = [],
      version_selector_map =
        [(''b'', ''B1'', pkg ''b'' ''/srv/b.git'' ''B1''),
         (''a'', ''A2'', pkg ''a'' ''/srv/a.git'' ''A2'')],
      source_map = [''b'' \<mapsto> ''/srv/b.git'', ''a'' \<mapsto> ''/srv/a.git'']\<rparr>"

definition st_last_turn :: loop_state where
  "st_last_turn =
     st_selected\<lparr>queue := [(''100'', ''A1'', ''a'', pkg ''a'' ''/srv/a.git'' ''A1'')]\<rparr>"



text \<open>The root asks for \<open>a\<close> at \<open>A2\<close> (time 300) and \<open>b\<close> at \<open>B1\<close>
  (time 200). The manifest of \<open>a\<close> at \<open>A2\<close> asks for \<open>c\<close> at \<open>C1\<close>
  (time 100); the manifest of \<open>b\<close> asks for \<open>a\<close> at \<open>A1\<close> (time 150), an
  ancestor of \<open>A2\<close>; and the manifest of \<open>a\<close> at \<open>A1\<close> asks for \<open>c\<close> at
  \<open>C9\<close> (time 120), which is not an ancestor of \<open>C1\<close>.\<close>

definition env_discarded :: "unit env" where
  "env_discarded =
     synthetic_env
       [(''A1'', ''150''), (''A2'', ''300''), (''B1'', ''200''), (''C1'', ''100''),
        (''C9'', ''120'')]
       [(''A1'', ''A2'')]
       [((''a'', ''A2''), [pkg ''c'' ''/srv/c.git'' ''C1'']),
        ((''b'', ''B1''), [pkg ''a'' ''/srv/a.git'' ''A1'']),
        ((''a'', ''A1''), [pkg ''c'' ''/srv/c.git'' ''C9''])]"

definition ws_discarded :: workspace where
  "ws_discarded = ws_of [pkg ''a'' ''/srv/a.git'' ''A2'', pkg ''b'' ''/srv/b.git'' ''B1'']"






lemmas run_update =
  update_def update_select_def update_step_def update_loop.simps synthetic_env_def
  synthetic_run_def pkg_def ws_of_def no_lock_def commit_to_time_def git_command_def
  git_check_def rstrip_def isspace_def is_git_repo_def is_ancestor_def path_join_def
  Path_root_def Path_parts_def

section \<open>Properties of gitrepo.py\<close>

lemma path_to_name_doctests:
  "path_to_name ''a.git'' = ''a''"
  "path_to_name ''/a/b/c/def.git'' = ''def''"
  "path_to_name ''ghi'' = ''ghi''"
  by (simp_all add: path_to_name_def Path_name_def)

text \<open>
  C8. The name of a package is meant to be the last segment of its source with a trailing
  \<open>.git\<close> removed. \<open>path_to_name\<close> removes every occurrence of \<open>.git\<close> in the
  last segment: the three examples of its docstring come out as documented, but the
  source \<^verbatim>\<open>https://github.com/u/u.github.io.git\<close> is named \<open>uhub.io\<close>, not
  \<open>u.github.io\<close>.
\<close>

theorem path_to_name_inner_git:
  "path_to_name ''https://github.com/u/u.github.io.git'' = ''uhub.io''
   \<and> path_to_name ''/a/b/c/def.git'' = ''def''
   \<and> path_to_name ''a.git'' = ''a''
   \<and> path_to_name ''ghi'' = ''ghi''"
  by (simp add: path_to_name_def Path_name_def)

text \<open>
  C10. When \<^verbatim>\<open>git show <revision>:wit-manifest.json\<close> ends with a status other than
  zero, whatever it printed, \<open>read_manifest_from_commit\<close> raises nothing and returns
  the empty Manifest; this is also its result for every Git that ends the command with
  status zero and prints a text that parses to the empty array.
\<close>

theorem read_manifest_from_commit_nonzero:
  assumes "run [''git'', ''show'', rvsn @ '':wit-manifest.json''] (Some (path self)) w
             = ((rc, out, err), w')"
    and "rc \<noteq> 0"
  shows "read_manifest_from_commit run json_loads self rvsn w = (Inr [], w')
     \<and> (\<forall>run0 out0 err0.
          run0 [''git'', ''show'', rvsn @ '':wit-manifest.json''] (Some (path self)) w
            = ((0, out0, err0), w')
          \<and> json_loads out0 = Inr (JArray [])
          \<longrightarrow> read_manifest_from_commit run0 json_loads self rvsn w
              = read_manifest_from_commit run json_loads self rvsn w)"
  using assms
  by (simp add: read_manifest_from_commit_def git_command_def PKG_DEPENDENCY_FILE_def)

theorem read_manifest_from_commit_nonzero_witness:
  "git_rejects 128 ''fatal: invalid object name'' [''git'', ''show'', ''HEAD'' @ '':wit-manifest.json'']
       (Some (path (pkg ''a'' ''/srv/a.git'' ''HEAD''))) ()
     = ((128, [], ''fatal: invalid object name''), ())
   \<and> (128 :: int) \<noteq> 0
   \<and> read_manifest_from_commit (git_rejects 128 ''fatal: invalid object name'')
        (\<lambda>s. Inl JSONDecodeError) (pkg ''a'' ''/srv/a.git'' ''HEAD'') ''HEAD'' ()
     = (Inr [], ())"
  using read_manifest_from_commit_nonzero
    [where run = "git_rejects 128 ''fatal: invalid object name''" and rvsn = "''HEAD''"
       and self = "pkg ''a'' ''/srv/a.git'' ''HEAD''" and w = "()" and w' = "()"
       and rc = 128 and out = "[]" and err = "''fatal: invalid object name''"
       and json_loads = "\<lambda>s. Inl JSONDecodeError"]
  by (simp add: git_rejects_def)

text \<open>
  C6. \<open>get_commit\<close> runs \<^verbatim>\<open>git rev-parse <ref>\<close>. If that ends with status zero it
  returns the output without trailing white space and runs nothing else. Otherwise it
  runs \<^verbatim>\<open>git rev-parse origin/<ref>\<close>, once, and returns its output, or fails with the
  \<open>GitError\<close> of that second command (command line, exit status, output, error text).
  No run of \<open>get_commit\<close> fails with \<open>GitCommitNotFound\<close>.
\<close>

theorem get_commit_retries_once:
  "get_commit (logged run) self r (log, w) =
     (case run [''git'', ''rev-parse'', r] (Some (path self)) w of
        ((rc, out, err), w1) \<Rightarrow>
          if rc = 0 then (Inr (rstrip out), (log @ [[''git'', ''rev-parse'', r]], w1))
          else
            (case run [''git'', ''rev-parse'', ''origin/'' @ r] (Some (path self)) w1 of
               ((rc', out', err'), w2) \<Rightarrow>
                 (if rc' = 0 then Inr (rstrip out')
                  else Inl (GitError
                    (''Command [git rev-parse origin/'' @ r
                       @ ''] exited with non-zero exit status ['' @ str_int rc' @ '']'' @ [CHR 10]
                     @ ''stdout: ['' @ rstrip out' @ '']'' @ [CHR 10]
                     @ ''stderr: ['' @ rstrip err' @ '']'' @ [CHR 10])),
                  (log @ [[''git'', ''rev-parse'', r],
                          [''git'', ''rev-parse'', ''origin/'' @ r]], w2))))
   \<and> fst (get_commit run' self' r' w') \<noteq> Inl GitCommitNotFound"
  by (simp add: get_commit_def git_command_def git_check_def logged_def
      split: prod.splits sum.splits)

text \<open>
  The claim C6 as written fails where both attempts fail: the error is a \<open>GitError\<close>.
\<close>

theorem get_commit_not_found_counterexample:
  "fst (get_commit (git_rejects 128 ''fatal: bad revision'') (pkg ''a'' ''/srv/a.git'' ''v1'')
          ''v1'' ())
     = Inl (GitError
         (''Command [git rev-parse origin/v1] exited with non-zero exit status [128]'' @ [CHR 10]
          @ ''stdout: []'' @ [CHR 10]
          @ ''stderr: [fatal: bad revision]'' @ [CHR 10]))
   \<and> fst (get_commit (git_rejects 128 ''fatal: bad revision'') (pkg ''a'' ''/srv/a.git'' ''v1'')
          ''v1'' ())
     \<noteq> Inl GitCommitNotFound"
  by (simp add: get_commit_def git_command_def git_check_def git_rejects_def rstrip_def
      isspace_def str_int_def str_nat.simps)

text \<open>
  \<open>fetch\<close> runs \<^verbatim>\<open>git fetch <source>\<close> and then \<^verbatim>\<open>git fetch --all\<close>, whatever
  the first command answers, and it returns, with the value \<open>True\<close>, exactly when
  the first command ends with status zero.
\<close>

lemma fetch_commands:
  "snd (fetch (logged run) self src (log, w)) =
     (log @ [[''git'', ''fetch'', src], [''git'', ''fetch'', ''--all'']],
      snd (run [''git'', ''fetch'', ''--all''] (Some (path self))
             (snd (run [''git'', ''fetch'', src] (Some (path self)) w))))"
  by (simp add: fetch_def git_command_def logged_def split: prod.splits sum.splits)

lemma fetch_success_iff:
  "fst (fetch run self src w) = Inr b \<longleftrightarrow>
     b \<and> fst (fst (run [''git'', ''fetch'', src] (Some (path self)) w)) = 0"
  by (auto simp: fetch_def git_command_def git_check_def split: prod.splits sum.splits)

text \<open>
  C7. \<open>fetch\<close> is meant to fail with \<open>BadSource\<close>, carrying the name and the source,
  when the error text of \<^verbatim>\<open>git fetch <source>\<close> contains
  \<^verbatim>\<open>does not appear to be a git repository\<close>. It runs the two commands in order, and
  then raises the class \<open>BadSource\<close> without the two arguments that its constructor
  requires, which in Python is a \<open>TypeError\<close>.
\<close>

theorem fetch_bad_source_type_error:
  "fetch (logged (git_rejects 128
            (''fatal: '' @ [CHR 39] @ ''/nonexistent'' @ [CHR 39]
               @ '' does not appear to be a git repository'' @ [CHR 10])))
     (pkg ''a'' ''/nonexistent'' ''master'') ''/nonexistent'' ([], ())
   = (Inl TypeError, ([[''git'', ''fetch'', ''/nonexistent''], [''git'', ''fetch'', ''--all'']], ()))"
  by (simp add: fetch_def git_command_def git_check_def git_rejects_def logged_def)

section \<open>Properties of workspace.py\<close>

text \<open>
  A rule for the loop: a property of the loop state and the world that holds at the start
  and that every turn keeps holds when the loop ends, with an empty queue.
\<close>

lemma update_loop_rule:
  fixes w :: 'w
  assumes run: "update_loop env self st w = Some (Inr st', w')"
    and init: "I st w"
    and step: "\<And>st w st1 w1. I st w \<Longrightarrow> queue st \<noteq> [] \<Longrightarrow>
           update_step env self st w = (Inr st1, w1) \<Longrightarrow> I st1 w1"
  shows "I st' w' \<and> queue st' = []"
proof -
  let ?P = "\<lambda>e s st w (y :: (error + loop_state) \<times> 'w). e = env \<longrightarrow> s = self \<longrightarrow> I st w
          \<longrightarrow> (\<forall>st' w'. y = (Inr st', w') \<longrightarrow> I st' w' \<and> queue st' = [])"
  have "?P env self st w (Inr st', w')"
  proof (rule update_loop.raw_induct [where P = ?P, OF _ run])
    fix loop e s st w y
    assume ih: "\<And>e s st w y. loop e s st w = Some y \<Longrightarrow> ?P e s st w y"
      and eq: "(if queue st = [] then Some (Inr st, w)
                else case update_step e s st w of
                       (Inl x, w1) \<Rightarrow> Some (Inl x, w1)
                     | (Inr st1, w1) \<Rightarrow> loop e s st1 w1) = Some y"
    show "?P e s st w y"
    proof (intro impI allI)
      fix st' w'
      assume e: "e = env" and s: "s = self" and i: "I st w" and y: "y = (Inr st', w')"
      show "I st' w' \<and> queue st' = []"
      proof (cases "queue st = []")
        case True
        with eq i y show ?thesis by simp
      next
        case False
        with eq y obtain st1 w1 where u: "update_step e s st w = (Inr st1, w1)"
          and l: "loop e s st1 w1 = Some y"
          by (auto split: prod.splits sum.splits)
        from step [OF i False] u e s have "I st1 w1" by simp
        with ih [OF l] e s y show ?thesis by simp
      qed
    qed
  qed
  with init show ?thesis by simp
qed

lemma update_step_cases:
  assumes "update_step env self st w = (Inr st1, w1)"
  obtains (discard) t c n r sc sr
    where "last (queue st) = (t, c, n, r)"
      and "map_of (version_selector_map st) n = Some (sc, sr)"
      and "is_ancestor (subprocess_run env) r c (Some sc) w = (Inr True, w1)"
      and "st1 = st\<lparr>queue := butlast (queue st)\<rparr>"
  | (select) t c n r ds wa q' sm'
    where "last (queue st) = (t, c, n, r)"
      and "map_of (version_selector_map st) n = None"
      and "get_dependencies env r (ws_path self) w = (Inr ds, wa)"
      and "examine env self t ds (butlast (queue st), source_map st) wa = (Inr (q', sm'), w1)"
      and "st1 = \<lparr>queue = sort_key (\<lambda>tup. fst tup) q',
                  version_selector_map = version_selector_map st @ [(n, c, r)],
                  source_map = sm'\<rparr>"
proof -
  obtain t c n r where l: "last (queue st) = (t, c, n, r)"
    by (cases "last (queue st)") auto
  show thesis
  proof (cases "map_of (version_selector_map st) n")
    case None
    with assms l show ?thesis
      by (auto simp: update_step_def split: prod.splits sum.splits intro: select)
  next
    case (Some a)
    with assms l show ?thesis
      by (cases a) (auto simp: update_step_def split: prod.splits sum.splits if_splits
          intro: discard)
  qed
qed

lemma vsm_step:
  assumes "update_step env self st w = (Inr st1, w1)"
    and "distinct (map fst (version_selector_map st))"
  shows "prefix (version_selector_map st) (version_selector_map st1)
         \<and> distinct (map fst (version_selector_map st1))"
  using assms(1)
proof (cases rule: update_step_cases)
  case (discard t c n r sc sr)
  with assms(2) show ?thesis by simp
next
  case (select t c n r ds wa q' sm')
  from select(2) have "n \<notin> fst ` set (version_selector_map st)"
    by (simp add: map_of_eq_None_iff)
  with assms(2) show ?thesis by (simp add: select(5))
qed

lemma map_of_prefix:
  "prefix xs ys \<Longrightarrow> map_of xs k = Some v \<Longrightarrow> map_of ys k = Some v"
  by (auto simp: prefix_def)

lemma update_success:
  assumes "update env self d = Some (Inr self', d')"
  obtains st w1 new_lock
  where "update_select env self (outside d) = Some (Inr st, w1)"
    and "lock_packages env self (version_selector_map st) w1 = (Inr new_lock, outside d')"
    and "lockfile d' = Some new_lock" and "self' = self\<lparr>ws_lock := Some new_lock\<rparr>"
  using assms
  by (auto simp: update_def split: option.splits prod.splits sum.splits)

text \<open>
  What the check of step 10 gives: when the loop over the dependencies ends without an
  error, no tuple that it has put on the queue has a commit time that is greater, in the
  order of texts, than that of the parent.
\<close>

lemma examine_text_order:
  "examine env self t ds (q, sm) w = (Inr (q', sm'), w') \<Longrightarrow>
     \<forall>x \<in> set q'. x \<in> set q \<or> fst x \<le> t"
proof (induction ds arbitrary: q sm w)
  case Nil
  then show ?case by simp
next
  case (Cons d ds)
  from Cons.prems obtain dep dt w4
    where le: "\<not> t < dt"
      and rc: "examine env self t ds
                 (q @ [(dt, revision dep, name dep, dep)], sm(name dep \<mapsto> source dep)) w4
               = (Inr (q', sm'), w')"
    by (auto split: prod.splits sum.splits if_splits option.splits)
  from Cons.IH [OF rc] le show ?case by auto
qed

text \<open>
  C2. \<open>commit_to_time\<close> returns the text that Git prints, not a number, and
  \<open>update\<close> compares these texts. For the package of 9 September 2001 whose dependency
  is one second older, the text \<open>999999999\<close> of the dependency is greater than the text
  \<open>1000000000\<close> of the parent, and \<open>update\<close> stops: a dependent newer than its
  source.
\<close>

theorem commit_to_time_text_order:
  "fst (commit_to_time (subprocess_run env_older_child) (pkg ''p'' ''/srv/p.git'' ''P1'') ''P1'' ())
     = Inr ''1000000000''
   \<and> fst (commit_to_time (subprocess_run env_older_child) (pkg ''c'' ''/srv/c.git'' ''C1'') ''C1'' ())
     = Inr ''999999999''
   \<and> (999999999 :: int) < 1000000000
   \<and> update env_older_child (ws_of [pkg ''p'' ''/srv/p.git'' ''P1'']) no_lock
     = Some (Inl (SystemExit (dependent_newer_msg ''c'') 1), no_lock)"
  by (simp add: env_older_child_def run_update)

text \<open>
  C5. With the two commit times exchanged the dependency is one second newer than its
  parent, the comparison of the texts does not see it, and \<open>update\<close> succeeds and
  writes the lock file.
\<close>

theorem update_accepts_newer_child:
  "(999999999 :: int) < 1000000000
   \<and> update env_newer_child (ws_of [pkg ''p'' ''/srv/p.git'' ''P1'']) no_lock
     = Some (Inr ((ws_of [pkg ''p'' ''/srv/p.git'' ''P1''])
                    \<lparr>ws_lock := Some [pkg ''p'' ''/srv/p.git'' ''P1'',
                                      pkg ''c'' ''/srv/c.git'' ''C1'']\<rparr>),
             \<lparr>outside = (),
              lockfile = Some [pkg ''p'' ''/srv/p.git'' ''P1'',
                               pkg ''c'' ''/srv/c.git'' ''C1'']\<rparr>)"
  by (simp add: env_newer_child_def run_update)

text \<open>
  C3. When the name of the popped tuple already has a selected commit \<open>s\<close>, the loop
  asks \<open>is_ancestor\<close> whether the popped commit \<open>c\<close> is an ancestor of \<open>s\<close>.
  If it is not, the resolution fails with \<open>NotAncestorError\<close>, an error that carries
  neither the name nor a commit. If it is, the tuple is dropped and the loop goes on with
  the rest of the queue, the selection and the source map as they were. (An error of
  \<open>is_ancestor\<close> itself, which can only come from resolving \<open>HEAD\<close> when \<open>s\<close>
  is the empty text, ends the resolution with that error.)
\<close>

theorem ancestor_check:
  assumes "queue st \<noteq> []"
    and "last (queue st) = (t, c, n, r)"
    and "map_of (version_selector_map st) n = Some (s, r0)"
  shows "update_loop env self st w =
     (case is_ancestor (subprocess_run env) r c (Some s) w of
        (Inl e, w1) \<Rightarrow> Some (Inl e, w1)
      | (Inr anc, w1) \<Rightarrow>
          if anc then update_loop env self (st\<lparr>queue := butlast (queue st)\<rparr>) w1
          else Some (Inl NotAncestorError, w1))"
  using assms
  by (subst update_loop.simps) (simp add: update_step_def split: prod.splits sum.splits)

theorem ancestor_check_witness:
  "queue st_last_turn \<noteq> []
   \<and> last (queue st_last_turn) = (''100'', ''A1'', ''a'', pkg ''a'' ''/srv/a.git'' ''A1'')
   \<and> map_of (version_selector_map st_last_turn) ''a''
       = Some (''A2'', pkg ''a'' ''/srv/a.git'' ''A2'')
   \<and> update_loop env_recency ws_recency st_last_turn () = Some (Inr st_selected, ())"
  using ancestor_check [of st_last_turn "''100''" "''A1''" "''a''"
      "pkg ''a'' ''/srv/a.git'' ''A1''" "''A2''" "pkg ''a'' ''/srv/a.git'' ''A2''"
      env_recency ws_recency "()"]
  by (simp add: st_last_turn_def st_selected_def env_recency_def ws_recency_def run_update)

text \<open>
  The claim C3 as written fails in that the error names nothing: the resolution of
  \<open>a\<close> and \<open>b\<close>, which fails on \<open>a\<close> with the commits \<open>A1\<close> and \<open>A2\<close>,
  and the resolution of \<open>x\<close> and \<open>y\<close>, which fails on \<open>x\<close> with \<open>X1\<close> and
  \<open>X2\<close>, end with the same error value.
\<close>

theorem not_ancestor_error_counterexample:
  "update env_diverged
     (ws_of [pkg ''a'' ''/srv/a.git'' ''A2'', pkg ''b'' ''/srv/b.git'' ''B1'']) no_lock
     = Some (Inl NotAncestorError, no_lock)
   \<and> update env_diverged
     (ws_of [pkg ''x'' ''/srv/x.git'' ''X2'', pkg ''y'' ''/srv/y.git'' ''Y1'']) no_lock
     = Some (Inl NotAncestorError, no_lock)"
  by (simp add: env_diverged_def run_update)

text \<open>
  C9. From any state of the loop to its end, the version selector map only grows at its
  end and never holds a name twice: an entry, once written, stays as it is. So the tuple
  popped in a turn decides the final selection of its name if the name had none, and
  changes nothing if it had one.
\<close>

theorem selection_written_once:
  assumes run: "update_loop env self st w = Some (Inr st', w')"
    and dist: "distinct (map fst (version_selector_map st))"
  shows "prefix (version_selector_map st) (version_selector_map st')
     \<and> distinct (map fst (version_selector_map st'))
     \<and> (\<forall>t c n r. queue st \<noteq> [] \<and> last (queue st) = (t, c, n, r) \<longrightarrow>
          map_of (version_selector_map st') n =
            (case map_of (version_selector_map st) n of
               None \<Rightarrow> Some (c, r)
             | Some v \<Rightarrow> Some v))"
proof -
  have grow: "prefix (version_selector_map a) (version_selector_map b)
              \<and> distinct (map fst (version_selector_map b))"
    if "update_loop env self a u = Some (Inr b, u')"
      and "distinct (map fst (version_selector_map a))" for a b u u'
  proof -
    let ?I = "\<lambda>x (v :: 'a). prefix (version_selector_map a) (version_selector_map x)
                \<and> distinct (map fst (version_selector_map x))"
    have "?I b u' \<and> queue b = []"
    proof (rule update_loop_rule [where I = ?I, OF that(1)])
      show "?I a u" using that(2) by simp
    next
      fix x v x1 v1
      assume "?I x v" and "update_step env self x v = (Inr x1, v1)"
      then show "?I x1 v1"
        using vsm_step [of env self x v x1 v1] by (auto intro: prefix_order.trans)
    qed
    then show ?thesis by simp
  qed
  have last: "map_of (version_selector_map st') n =
        (case map_of (version_selector_map st) n of None \<Rightarrow> Some (c, r) | Some v \<Rightarrow> Some v)"
    if ne: "queue st \<noteq> []" and l: "last (queue st) = (t, c, n, r)" for t c n r
  proof -
    from run ne obtain st1 w1 where s: "update_step env self st w = (Inr st1, w1)"
      and rest: "update_loop env self st1 w1 = Some (Inr st', w')"
      by (subst (asm) update_loop.simps) (auto split: prod.splits sum.splits)
    from vsm_step [OF s dist] have d1: "distinct (map fst (version_selector_map st1))" by simp
    from grow [OF rest d1] have p: "prefix (version_selector_map st1) (version_selector_map st')"
      by simp
    from s show ?thesis
    proof (cases rule: update_step_cases)
      case (discard t' c' n' r' sc sr)
      with l have "map_of (version_selector_map st1) n = Some (sc, sr)" by simp
      from map_of_prefix [OF p this] discard l show ?thesis by simp
    next
      case (select t' c' n' r' ds wa q' sm')
      with l have "map_of (version_selector_map st1) n = Some (c, r)"
        by (simp add: map_add_def)
      from map_of_prefix [OF p this] select l show ?thesis by simp
    qed
  qed
  from grow [OF run dist] last show ?thesis by blast
qed

theorem selection_written_once_witness:
  "update_loop env_recency ws_recency st_seeded () = Some (Inr st_selected, ())
   \<and> distinct (map fst (version_selector_map st_seeded))
   \<and> prefix (version_selector_map st_seeded) (version_selector_map st_selected)
   \<and> distinct (map fst (version_selector_map st_selected))
   \<and> map_of (version_selector_map st_selected) ''b''
       = Some (''B1'', pkg ''b'' ''/srv/b.git'' ''B1'')"
proof -
  have run: "update_loop env_recency ws_recency st_seeded () = Some (Inr st_selected, ())"
    by (simp add: st_seeded_def st_selected_def env_recency_def ws_recency_def run_update)
  have dist: "distinct (map fst (version_selector_map st_seeded))"
    by (simp add: st_seeded_def)
  have "queue st_seeded \<noteq> []
    \<and> last (queue st_seeded) = (''200'', ''B1'', ''b'', pkg ''b'' ''/srv/b.git'' ''B1'')"
    by (simp add: st_seeded_def)
  with selection_written_once [OF run dist] run dist show ?thesis
    by (simp add: st_seeded_def)
qed


section \<open>The record of a resolution\<close>

text \<open>
  The recording of a world answers every operation as the world does and adds what was
  asked and answered to the record. Running git and reading a manifest are quiet: they add
  events, but no source lookup. What \<open>is_ancestor\<close> answers with yes is in the record
  as a successful run of \<^verbatim>\<open>git merge-base --is-ancestor\<close>.
\<close>

lemma looked_up_append: "looked_up (a @ b) = looked_up a @ looked_up b"
  by (simp add: looked_up_def)

lemma quiet_refl: "quiet l l"
  by (simp add: quiet_def)

lemma quiet_trans: "quiet l l1 \<Longrightarrow> quiet l1 l2 \<Longrightarrow> quiet l l2"
  by (auto simp: quiet_def)

lemma quiet_Ran: "quiet l (l @ [Ran cmd cwd rc])"
  by (simp add: quiet_def looked_up_append) (simp add: looked_up_def)

lemma quiet_Read: "quiet l (l @ [Read p ds])"
  by (simp add: quiet_def looked_up_append) (simp add: looked_up_def)

lemma quiet_subset: "quiet l l' \<Longrightarrow> set l \<subseteq> set l'"
  by (auto simp: quiet_def dest: set_mono_prefix)

lemma tested_mono: "set l \<subseteq> set l' \<Longrightarrow> tested l dir a c \<Longrightarrow> tested l' dir a c"
  unfolding tested_def by blast

lemma honoured_mono: "set l \<subseteq> set l' \<Longrightarrow> honoured l vsm d \<Longrightarrow> honoured l' vsm d"
  by (auto simp: honoured_def split: option.splits dest: tested_mono)

lemma was_looked_mono: "set l \<subseteq> set l' \<Longrightarrow> was_looked l d \<Longrightarrow> was_looked l' d"
  unfolding was_looked_def by blast

lemma rec_git_command:
  "git_command (subprocess_run (recording env)) r as (l, w) = (p, (l', w')) \<Longrightarrow>
     l' = l @ [Ran (''git'' # as) (Some (path r)) (returncode p)]
     \<and> git_command (subprocess_run env) r as w = (p, w')"
  by (auto simp: git_command_def recording_def split: prod.splits)

lemma rec_commit_to_time:
  "commit_to_time (subprocess_run (recording env)) r h (l, w) = (x, (l', w')) \<Longrightarrow>
     quiet l l' \<and> commit_to_time (subprocess_run env) r h w = (x, w')"
  by (auto simp: commit_to_time_def split: prod.splits sum.splits
      dest!: rec_git_command intro: quiet_Ran)

lemma rec_is_git_repo:
  "is_git_repo (subprocess_run (recording env)) p (l, w) = (x, (l', w')) \<Longrightarrow>
     quiet l l' \<and> is_git_repo (subprocess_run env) p w = (x, w')"
  by (auto simp: is_git_repo_def recording_def split: prod.splits intro: quiet_Ran)

lemma rec_get_commit:
  "get_commit (subprocess_run (recording env)) r c (l, w) = (x, (l', w')) \<Longrightarrow>
     quiet l l' \<and> get_commit (subprocess_run env) r c w = (x, w')"
  by (auto simp: get_commit_def split: prod.splits sum.splits
      dest!: rec_git_command intro: quiet_Ran quiet_trans)


lemma rec_is_ancestor:
  assumes "is_ancestor (subprocess_run (recording env)) r a (Some c) (l, w) = (x, (l', w'))"
  shows "quiet l l' \<and> is_ancestor (subprocess_run env) r a (Some c) w = (x, w')
     \<and> (x = Inr True \<longrightarrow> tested l' (path r) a c)"
proof (cases "c = []")
  case False
  with assms obtain p where
    g: "git_command (subprocess_run (recording env)) r
          [''merge-base'', ''--is-ancestor'', a, c] (l, w) = (p, (l', w'))"
    and x: "x = Inr (returncode p = 0)"
    by (auto simp: is_ancestor_def split: prod.splits)
  from rec_git_command [OF g]
  have l': "l' = l @ [Ran [''git'', ''merge-base'', ''--is-ancestor'', a, c] (Some (path r))
                       (returncode p)]"
    and e: "git_command (subprocess_run env) r [''merge-base'', ''--is-ancestor'', a, c] w
            = (p, w')"
    by simp_all
  have "x = Inr True \<longrightarrow> tested l' (path r) a c"
    using x l' False by (auto simp: tested_def)
  moreover have "quiet l l'" unfolding l' by (rule quiet_Ran)
  moreover have "is_ancestor (subprocess_run env) r a (Some c) w = (x, w')"
    using False e x by (simp add: is_ancestor_def)
  ultimately show ?thesis by simp
next
  case True
  obtain y l1 w1 where h: "get_commit (subprocess_run (recording env)) r ''HEAD'' (l, w)
      = (y, (l1, w1))"
    by (metis prod.exhaust)
  from rec_get_commit [OF h] have q1: "quiet l l1"
    and h': "get_commit (subprocess_run env) r ''HEAD'' w = (y, w1)"
    by simp_all
  show ?thesis
  proof (cases y)
    case (Inl e)
    with assms True h h' q1 show ?thesis
      by (auto simp: is_ancestor_def get_head_commit_def)
  next
    case (Inr cur)
    with assms True h obtain p where
      g: "git_command (subprocess_run (recording env)) r
            [''merge-base'', ''--is-ancestor'', a, cur] (l1, w1) = (p, (l', w'))"
      and x: "x = Inr (returncode p = 0)"
      by (auto simp: is_ancestor_def get_head_commit_def split: prod.splits)
    from rec_git_command [OF g]
    have l': "l' = l1 @ [Ran [''git'', ''merge-base'', ''--is-ancestor'', a, cur]
                          (Some (path r)) (returncode p)]"
      and e: "git_command (subprocess_run env) r [''merge-base'', ''--is-ancestor'', a, cur] w1
              = (p, w')"
      by simp_all
    have "x = Inr True \<longrightarrow> tested l' (path r) a c"
      using x l' True by (auto simp: tested_def)
    moreover have "quiet l l'"
      using q1 quiet_Ran [of l1] unfolding l' by (rule quiet_trans)
    moreover have "is_ancestor (subprocess_run env) r a (Some c) w = (x, w')"
      using True h' Inr e x by (simp add: is_ancestor_def get_head_commit_def)
    ultimately show ?thesis by simp
  qed
qed

lemma rec_get_dependencies:
  "get_dependencies (recording env) r p (l, w) = (x, (l', w')) \<Longrightarrow>
     get_dependencies env r p w = (x, w')
     \<and> l' = (case x of Inl e \<Rightarrow> l | Inr ds \<Rightarrow> l @ [Read r ds])"
  by (auto simp: recording_def split: prod.splits sum.splits)

lemma rec_find_source:
  "find_source (recording env) r ps (l, w) = (x, (l', w')) \<Longrightarrow>
     find_source env r ps w = (x, w')
     \<and> l' = (case x of Inl e \<Rightarrow> l | Inr r' \<Rightarrow> l @ [Looked r r'])"
  by (auto simp: recording_def split: prod.splits sum.splits)

lemma rec_clone:
  "clone (recording env) r (l, w) = (x, (l', w')) \<Longrightarrow> clone env r w = (x, w') \<and> l' = l"
  by (auto simp: recording_def split: prod.splits)

lemma rec_checkout:
  "checkout (recording env) r (l, w) = (x, (l', w')) \<Longrightarrow> checkout env r w = (x, w') \<and> l' = l"
  by (auto simp: recording_def split: prod.splits)

text \<open>
  The loop over the dependencies of a selected package, when it ends without an error, has
  looked up every dependency of the list, and has put a tuple on the queue and the source
  in the source map for each dependency that the lookups gave.
\<close>

lemma examine_rec:
  "examine (recording env) self t ds (q, sm) (l, w) = (Inr (q', sm'), (l', w')) \<Longrightarrow>
     prefix l l' \<and> set q \<subseteq> set q' \<and> sm \<subseteq>\<^sub>m sm'
     \<and> (\<forall>d \<in> set ds. was_looked l' d)
     \<and> (\<exists>xs. looked_up l' = looked_up l @ xs
           \<and> (\<forall>x \<in> set xs. (revision x, name x, x) \<in> set (map snd q')
                 \<and> sm' (name x) = Some (source x)))"
proof (induction ds arbitrary: q sm l w)
  case Nil
  then show ?case by simp
next
  case (Cons d ds)
  from Cons.prems obtain dep l1 w1 cloned l2 w2 u l3 w3 dt l4 w4
    where fs: "find_source (recording env) d (repo_paths self) (l, w) = (Inr dep, (l1, w1))"
      and nc: "sm (name dep) = None \<or> sm (name dep) = Some (source dep)"
      and ig: "is_git_repo (subprocess_run (recording env)) (path dep) (l1, w1)
               = (cloned, (l2, w2))"
      and cl: "(if \<not> cloned then clone (recording env) dep (l2, w2) else (Inr (), (l2, w2)))
               = (Inr u, (l3, w3))"
      and ct: "commit_to_time (subprocess_run (recording env)) dep (revision dep) (l3, w3)
               = (Inr dt, (l4, w4))"
      and rc: "examine (recording env) self t ds
                 (q @ [(dt, revision dep, name dep, dep)], sm(name dep \<mapsto> source dep)) (l4, w4)
               = (Inr (q', sm'), (l', w'))"
    by (auto split: prod.splits sum.splits if_splits option.splits)
  from Cons.IH [OF rc] obtain xs
    where p4: "prefix l4 l'"
      and sq: "set (q @ [(dt, revision dep, name dep, dep)]) \<subseteq> set q'"
      and sm: "sm(name dep \<mapsto> source dep) \<subseteq>\<^sub>m sm'"
      and wl: "\<forall>d \<in> set ds. was_looked l' d"
      and lu: "looked_up l' = looked_up l4 @ xs"
      and xs: "\<forall>x \<in> set xs. (revision x, name x, x) \<in> set (map snd q')
                 \<and> sm' (name x) = Some (source x)"
    by blast
  from rec_find_source [OF fs] have l1: "l1 = l @ [Looked d dep]" by simp
  from rec_is_git_repo [OF ig] have q2: "quiet l1 l2" by simp
  have l3: "l3 = l2" using cl rec_clone [of env dep l2 w2 "Inr u" l3 w3]
    by (auto split: if_splits)
  from rec_commit_to_time [OF ct] have q4: "quiet l3 l4" by simp
  have q14: "quiet l1 l4" using q2 q4 l3 by (auto intro: quiet_trans)
  have "prefix l l1" using l1 by simp
  moreover have "prefix l1 l4" using q14 by (simp add: quiet_def)
  ultimately have pl: "prefix l l'"
    using p4 by (blast intro: prefix_order.trans)
  have "Looked d dep \<in> set l1" using l1 by simp
  then have "Looked d dep \<in> set l'"
    using q14 p4 by (auto dest!: quiet_subset set_mono_prefix)
  then have wd: "was_looked l' d" unfolding was_looked_def by force
  have lu4: "looked_up l4 = looked_up l @ [dep]"
    using q14 l1 by (simp add: quiet_def looked_up_append) (simp add: looked_up_def)
  have m1: "sm \<subseteq>\<^sub>m sm(name dep \<mapsto> source dep)"
    using nc by (auto simp: map_le_def)
  have m2: "sm \<subseteq>\<^sub>m sm'" by (rule map_le_trans [OF m1 sm])
  have d1: "sm' (name dep) = Some (source dep)"
    using sm by (auto simp: map_le_def dom_def)
  have d2: "(revision dep, name dep, dep) \<in> set (map snd q')"
    using sq by force
  have "looked_up l' = looked_up l @ (dep # xs)" using lu lu4 by simp
  moreover have "\<forall>x \<in> set (dep # xs). (revision x, name x, x) \<in> set (map snd q')
                 \<and> sm' (name x) = Some (source x)"
    using xs d1 d2 by simp
  ultimately have ex: "\<exists>xs. looked_up l' = looked_up l @ xs
           \<and> (\<forall>x \<in> set xs. (revision x, name x, x) \<in> set (map snd q')
                 \<and> sm' (name x) = Some (source x))"
    by blast
  have "set q \<subseteq> set q'" using sq by auto
  with pl m2 wd wl ex show ?case by simp
qed

text \<open>
  The record changes no answer: a run in the recording of a world gives the result, and
  leaves the world in the state, of the same run in the world itself. So what is proved of
  the recorded run of \<open>update_select\<close> holds of every run of it.
\<close>

lemma examine_sim:
  "examine (recording env) self t ds (q, sm) (l, w) = (x, (l', w')) \<Longrightarrow>
     examine env self t ds (q, sm) w = (x, w')"
proof (induction ds arbitrary: q sm l w)
  case Nil
  then show ?case by simp
next
  case (Cons d ds)
  obtain y l1 w1 where fs: "find_source (recording env) d (repo_paths self) (l, w) = (y, (l1, w1))"
    by (metis prod.exhaust)
  from rec_find_source [OF fs] have fs': "find_source env d (repo_paths self) w = (y, w1)"
    by simp
  show ?case
  proof (cases y)
    case (Inl e)
    with Cons.prems fs fs' show ?thesis by simp
  next
    case (Inr dep)
    show ?thesis
    proof (cases "case sm (name dep) of None \<Rightarrow> False | Some s \<Rightarrow> source dep \<noteq> s")
      case True
      with Cons.prems fs fs' Inr show ?thesis by simp
    next
      case False
      obtain cloned l2 w2
        where ig: "is_git_repo (subprocess_run (recording env)) (path dep) (l1, w1)
                   = (cloned, (l2, w2))"
        by (metis prod.exhaust)
      from rec_is_git_repo [OF ig]
      have ig': "is_git_repo (subprocess_run env) (path dep) w1 = (cloned, w2)" by simp
      obtain u l3 w3
        where cl: "(if \<not> cloned then clone (recording env) dep (l2, w2) else (Inr (), (l2, w2)))
                   = (u, (l3, w3))"
        by (metis prod.exhaust)
      have cl': "(if \<not> cloned then clone env dep w2 else (Inr (), w2)) = (u, w3)"
        using cl rec_clone [of env dep l2 w2 u l3 w3] by (auto split: if_splits)
      show ?thesis
      proof (cases u)
        case (Inl e)
        with Cons.prems fs fs' Inr False ig ig' cl cl' show ?thesis by simp
      next
        case u: (Inr v)
        obtain z l4 w4
          where ct: "commit_to_time (subprocess_run (recording env)) dep (revision dep) (l3, w3)
                     = (z, (l4, w4))"
          by (metis prod.exhaust)
        from rec_commit_to_time [OF ct]
        have ct': "commit_to_time (subprocess_run env) dep (revision dep) w3 = (z, w4)" by simp
        show ?thesis
        proof (cases z)
          case (Inl e)
          with Cons.prems fs fs' Inr False ig ig' cl cl' u ct ct' show ?thesis by simp
        next
          case z: (Inr dt)
          show ?thesis
          proof (cases "t < dt")
            case True
            with Cons.prems fs fs' Inr False ig ig' cl cl' u ct ct' z show ?thesis by simp
          next
            case nt: False
            with Cons.prems fs Inr False ig cl u ct z
            have rc: "examine (recording env) self t ds
                 (q @ [(dt, revision dep, name dep, dep)], sm(name dep \<mapsto> source dep)) (l4, w4)
               = (x, (l', w'))"
              by simp
            have "examine env self t (d # ds) (q, sm) w =
                  examine env self t ds
                    (q @ [(dt, revision dep, name dep, dep)], sm(name dep \<mapsto> source dep)) w4"
              using fs' Inr False ig' cl' u ct' z nt by simp
            also have "\<dots> = (x, w')" by (rule Cons.IH [OF rc])
            finally show ?thesis .
          qed
        qed
      qed
    qed
  qed
qed

lemma seed_rec:
  "seed (recording env) rs (q, sm) (l, w) = (Inr (q', sm'), (l', w')) \<Longrightarrow>
     quiet l l' \<and> set q \<subseteq> set q'
     \<and> (\<forall>r \<in> set rs. (revision r, name r, r) \<in> set (map snd q'))
     \<and> (\<forall>k. k \<notin> name ` set rs \<longrightarrow> sm' k = sm k)
     \<and> (\<forall>r \<in> set (last_of_name rs). sm' (name r) = Some (source r))"
proof (induction rs arbitrary: q sm l w)
  case Nil
  then show ?case by (simp add: quiet_refl)
next
  case (Cons r rs)
  from Cons.prems obtain ct l1 w1
    where c: "commit_to_time (subprocess_run (recording env)) r (revision r) (l, w)
              = (Inr ct, (l1, w1))"
      and rc: "seed (recording env) rs
                 (q @ [(ct, revision r, name r, r)], sm(name r \<mapsto> source r)) (l1, w1)
               = (Inr (q', sm'), (l', w'))"
    by (auto split: prod.splits sum.splits)
  from rec_commit_to_time [OF c] have k1: "quiet l l1" by simp
  from Cons.IH [OF rc]
  have k2: "quiet l1 l'"
    and sq: "set (q @ [(ct, revision r, name r, r)]) \<subseteq> set q'"
    and qs: "\<forall>x \<in> set rs. (revision x, name x, x) \<in> set (map snd q')"
    and ot: "\<forall>k. k \<notin> name ` set rs \<longrightarrow> sm' k = (sm(name r \<mapsto> source r)) k"
    and ls: "\<forall>x \<in> set (last_of_name rs). sm' (name x) = Some (source x)"
    by blast+
  have a: "quiet l l'" by (rule quiet_trans [OF k1 k2])
  have b: "set q \<subseteq> set q'" using sq by auto
  have c': "(revision r, name r, r) \<in> set (map snd q')" using sq by force
  have d: "\<forall>k. k \<notin> name ` set (r # rs) \<longrightarrow> sm' k = sm k" using ot by auto
  have e: "\<forall>x \<in> set (last_of_name (r # rs)). sm' (name x) = Some (source x)"
    using ot ls by auto
  show ?case using a b c' qs d e by simp
qed

lemma seed_sim:
  "seed (recording env) rs (q, sm) (l, w) = (x, (l', w')) \<Longrightarrow>
     seed env rs (q, sm) w = (x, w')"
proof (induction rs arbitrary: q sm l w)
  case Nil
  then show ?case by simp
next
  case (Cons r rs)
  obtain z l1 w1
    where c: "commit_to_time (subprocess_run (recording env)) r (revision r) (l, w)
              = (z, (l1, w1))"
    by (metis prod.exhaust)
  from rec_commit_to_time [OF c]
  have c': "commit_to_time (subprocess_run env) r (revision r) w = (z, w1)" by simp
  show ?case
  proof (cases z)
    case (Inl e)
    with Cons.prems c c' show ?thesis by simp
  next
    case (Inr ct)
    with Cons.prems c
    have rc: "seed (recording env) rs
                 (q @ [(ct, revision r, name r, r)], sm(name r \<mapsto> source r)) (l1, w1)
               = (x, (l', w'))"
      by simp
    have "seed env (r # rs) (q, sm) w =
          seed env rs (q @ [(ct, revision r, name r, r)], sm(name r \<mapsto> source r)) w1"
      using c' Inr by simp
    also have "\<dots> = (x, w')" by (rule Cons.IH [OF rc])
    finally show ?thesis .
  qed
qed

lemma lock_packages_rec:
  "lock_packages (recording env) self vsm (l, w) = (x, (l', w')) \<Longrightarrow>
     l' = l \<and> lock_packages env self vsm w = (x, w')"
proof (induction vsm arbitrary: l w x l' w')
  case Nil
  then show ?case by simp
next
  case (Cons e vsm)
  obtain n c p where e: "e = (n, c, p)" by (cases e) auto
  let ?r = "\<lparr>name = name p, path = path_join (ws_path self) (name p), source = source p,
             revision = c\<rparr>"
  obtain y l1 w1 where co: "checkout (recording env) ?r (l, w) = (y, (l1, w1))"
    by (metis prod.exhaust)
  from rec_checkout [OF co] have co': "checkout env ?r w = (y, w1)" and l1: "l1 = l"
    by simp_all
  show ?case
  proof (cases y)
    case (Inl a)
    with Cons.prems e co co' l1 show ?thesis by simp
  next
    case (Inr b)
    obtain z l2 w2 where lp: "lock_packages (recording env) self vsm (l1, w1) = (z, (l2, w2))"
      by (metis prod.exhaust)
    from Cons.IH [OF lp] have "l2 = l1" and "lock_packages env self vsm w1 = (z, w2)"
      by simp_all
    with Cons.prems e co co' l1 Inr lp show ?thesis by (auto split: sum.splits)
  qed
qed

lemma update_step_sim:
  assumes "update_step (recording env) self st (l, w) = (x, (l', w'))"
  shows "update_step env self st w = (x, w')"
proof -
  obtain t c n r where lq: "last (queue st) = (t, c, n, r)"
    by (cases "last (queue st)") auto
  show ?thesis
  proof (cases "map_of (version_selector_map st) n")
    case None
    obtain y la wa
      where g: "get_dependencies (recording env) r (ws_path self) (l, w) = (y, (la, wa))"
      by (metis prod.exhaust)
    from rec_get_dependencies [OF g]
    have g': "get_dependencies env r (ws_path self) w = (y, wa)" by simp
    show ?thesis
    proof (cases y)
      case (Inl e)
      with assms lq None g g' show ?thesis by (simp add: update_step_def)
    next
      case (Inr ds)
      obtain z lb wb
        where e: "examine (recording env) self t ds (butlast (queue st), source_map st) (la, wa)
                  = (z, (lb, wb))"
        by (metis prod.exhaust)
      from examine_sim [OF e]
      have e': "examine env self t ds (butlast (queue st), source_map st) wa = (z, wb)" .
      from assms lq None g g' Inr e e' show ?thesis
        by (auto simp: update_step_def split: sum.splits)
    qed
  next
    case (Some a)
    obtain sc sr where a: "a = (sc, sr)" by (cases a) auto
    obtain y la wa
      where i: "is_ancestor (subprocess_run (recording env)) r c (Some sc) (l, w) = (y, (la, wa))"
      by (metis prod.exhaust)
    from rec_is_ancestor [OF i]
    have i': "is_ancestor (subprocess_run env) r c (Some sc) w = (y, wa)" by simp
    from assms lq Some a i i' show ?thesis
      by (auto simp: update_step_def split: sum.splits if_splits)
  qed
qed

lemma update_loop_recorded:
  fixes w :: 'w
  assumes run: "update_loop env self st w = Some (x, w')"
  shows "\<exists>l'. update_loop (recording env) self st (l, w) = Some (x, (l', w'))"
proof -
  let ?P = "\<lambda>e s st w (y :: (error + loop_state) \<times> 'w). e = env \<longrightarrow>
     (\<forall>l. \<exists>l'. update_loop (recording env) s st (l, w) = Some (fst y, (l', snd y)))"
  have "?P env self st w (x, w')"
  proof (rule update_loop.raw_induct [where P = ?P, OF _ run])
    fix loop e s st w y
    assume ih: "\<And>e s st w y. loop e s st w = Some y \<Longrightarrow> ?P e s st w y"
      and eq: "(if queue st = [] then Some (Inr st, w)
                else case update_step e s st w of
                       (Inl x, w1) \<Rightarrow> Some (Inl x, w1)
                     | (Inr st1, w1) \<Rightarrow> loop e s st1 w1) = Some y"
    show "?P e s st w y"
    proof (intro impI allI)
      fix l
      assume e: "e = env"
      show "\<exists>l'. update_loop (recording env) s st (l, w) = Some (fst y, (l', snd y))"
      proof (cases "queue st = []")
        case True
        with eq have "y = (Inr st, w)" by simp
        with True show ?thesis by (subst update_loop.simps) simp
      next
        case False
        obtain z l1 w1 where u: "update_step (recording env) s st (l, w) = (z, (l1, w1))"
          by (metis prod.exhaust)
        from update_step_sim [OF u] have u': "update_step env s st w = (z, w1)" .
        show ?thesis
        proof (cases z)
          case (Inl a)
          with eq False u' e have "y = (Inl a, w1)" by simp
          with False u Inl show ?thesis by (subst update_loop.simps) simp
        next
          case (Inr st1)
          with eq False u' e have "loop e s st1 w1 = Some y" by simp
          from ih [OF this] e
          obtain l' where "update_loop (recording env) s st1 (l1, w1) = Some (fst y, (l', snd y))"
            by blast
          with False u Inr show ?thesis by (subst update_loop.simps) simp
        qed
      qed
    qed
  qed
  then show ?thesis by simp
qed

lemma update_select_recorded:
  assumes "update_select env self w = Some (x, w')"
  shows "\<exists>l'. update_select (recording env) self ([], w) = Some (x, (l', w'))"
proof -
  obtain y l1 w1 where s: "seed (recording env) (ws_manifest self) ([], Map.empty) ([], w)
      = (y, (l1, w1))"
    by (metis prod.exhaust)
  from seed_sim [OF s] have s': "seed env (ws_manifest self) ([], Map.empty) w = (y, w1)" .
  show ?thesis
  proof (cases y)
    case (Inl e)
    with assms s s' show ?thesis by (simp add: update_select_def)
  next
    case (Inr a)
    obtain q sm where a: "a = (q, sm)" by (cases a) auto
    from assms s' Inr a
    have "update_loop env self
            \<lparr>queue = sort_key (\<lambda>tup. fst tup) q, version_selector_map = [], source_map = sm\<rparr>
            w1 = Some (x, w')"
      by (simp add: update_select_def)
    from update_loop_recorded [OF this, of l1] s Inr a show ?thesis
      by (simp add: update_select_def)
  qed
qed

text \<open>
  A turn of the loop keeps the two invariants \<open>all_accounted\<close> and
  \<open>sources_recorded\<close>: the tuple that it pops is honoured from then on, either as the
  selection of its name or by the ancestor test that it passed, and what it puts on the
  queue is what it has looked up.
\<close>

lemma queued_last:
  assumes "queue st \<noteq> []" and "queued st d"
  shows "(revision d, name d, d) \<in> set (map snd (butlast (queue st)))
         \<or> snd (last (queue st)) = (revision d, name d, d)"
proof (cases "queue st" rule: rev_cases)
  case Nil
  with assms(1) show ?thesis by simp
next
  case (snoc ys y)
  with assms(2) show ?thesis by (auto simp: queued_def)
qed

lemma honoured_append: "honoured l vsm d \<Longrightarrow> honoured l (vsm @ ys) d"
  by (auto simp: honoured_def map_add_def split: option.splits)

lemma read_event_iff:
  "(case e of Read p0 ds \<Rightarrow> p0 = p \<and> (\<forall>d \<in> set ds. was_looked l d)
     | Ran cmd cwd rc \<Rightarrow> False | Looked d d' \<Rightarrow> False)
   \<longleftrightarrow> (\<exists>ds. e = Read p ds \<and> (\<forall>d \<in> set ds. was_looked l d))"
  by (cases e) auto

lemma read_in_log:
  "(\<exists>e \<in> set l. \<exists>ds. e = Read p ds \<and> Q ds) \<longleftrightarrow> (\<exists>ds. Read p ds \<in> set l \<and> Q ds)"
  by blast

lemma followed_iff:
  "followed l vsm \<longleftrightarrow>
     (\<forall>(n, c, p) \<in> set vsm. \<exists>ds. Read p ds \<in> set l \<and> (\<forall>d \<in> set ds. was_looked l d))"
  by (simp add: followed_def read_event_iff read_in_log)

lemma followed_mono:
  assumes "set l \<subseteq> set l'" and "followed l vsm"
  shows "followed l' vsm"
  unfolding followed_iff
proof (intro ballI)
  fix e assume e: "e \<in> set vsm"
  obtain n c p where [simp]: "e = (n, c, p)" by (cases e) auto
  from assms(2) e obtain ds where "Read p ds \<in> set l" and "\<forall>d \<in> set ds. was_looked l d"
    unfolding followed_iff by auto
  with assms(1) have "Read p ds \<in> set l'" and "\<forall>d \<in> set ds. was_looked l' d"
    by (auto intro: was_looked_mono)
  then show "case e of (n, c, p) \<Rightarrow>
      \<exists>ds. Read p ds \<in> set l' \<and> (\<forall>d \<in> set ds. was_looked l' d)"
    by auto
qed

lemma followed_append:
  assumes "followed l vsm" and "Read r ds \<in> set l" and "\<forall>d \<in> set ds. was_looked l d"
  shows "followed l (vsm @ [(n, c, r)])"
  unfolding followed_iff
proof (intro ballI)
  fix e assume "e \<in> set (vsm @ [(n, c, r)])"
  then consider "e \<in> set vsm" | "e = (n, c, r)" by auto
  then show "case e of (n, c, p) \<Rightarrow>
      \<exists>ds. Read p ds \<in> set l \<and> (\<forall>d \<in> set ds. was_looked l d)"
  proof cases
    case 1
    with assms(1) show ?thesis unfolding followed_iff by blast
  next
    case 2
    with assms(2,3) show ?thesis by auto
  qed
qed

lemma accounted_discard:
  assumes "accounted l st d" and "queue st \<noteq> []"
    and "last (queue st) = (t, c, n, r)"
    and "map_of (version_selector_map st) n = Some (sc, sr)"
    and "tested l1 (path r) c sc"
    and "set l \<subseteq> set l1"
  shows "accounted l1 (st\<lparr>queue := butlast (queue st)\<rparr>) d"
proof (cases "honoured l (version_selector_map st) d")
  case True
  with assms(6) show ?thesis
    by (auto simp: accounted_def dest: honoured_mono)
next
  case False
  with assms(1) have q: "queued st d" by (simp add: accounted_def)
  from queued_last [OF assms(2) q] show ?thesis
  proof
    assume "(revision d, name d, d) \<in> set (map snd (butlast (queue st)))"
    then show ?thesis by (simp add: accounted_def queued_def)
  next
    assume "snd (last (queue st)) = (revision d, name d, d)"
    with assms(3) have e: "c = revision d" "n = name d" "r = d" by simp_all
    with assms(4,5) have "honoured l1 (version_selector_map st) d"
      by (simp add: honoured_def)
    then show ?thesis by (simp add: accounted_def)
  qed
qed

lemma accounted_select:
  assumes "accounted l st d" and "queue st \<noteq> []"
    and "last (queue st) = (t, c, n, r)"
    and "map_of (version_selector_map st) n = None"
    and "set l \<subseteq> set l1"
    and "set (butlast (queue st)) \<subseteq> set q'"
  shows "accounted l1
           \<lparr>queue = sort_key (\<lambda>tup. fst tup) q',
            version_selector_map = version_selector_map st @ [(n, c, r)],
            source_map = sm'\<rparr> d"
proof (cases "honoured l (version_selector_map st) d")
  case True
  with assms(5) show ?thesis
    by (auto simp: accounted_def dest: honoured_mono intro: honoured_append)
next
  case False
  with assms(1) have q: "queued st d" by (simp add: accounted_def)
  from queued_last [OF assms(2) q] show ?thesis
  proof
    assume "(revision d, name d, d) \<in> set (map snd (butlast (queue st)))"
    with assms(6) show ?thesis by (auto simp: accounted_def queued_def)
  next
    assume "snd (last (queue st)) = (revision d, name d, d)"
    with assms(3) have e: "c = revision d" "n = name d" "r = d" by simp_all
    with assms(4) have "honoured l1 (version_selector_map st @ [(n, c, r)]) d"
      by (simp add: honoured_def map_add_def)
    then show ?thesis by (simp add: accounted_def)
  qed
qed

lemma all_accounted_step:
  assumes inv: "all_accounted self st l"
    and ne: "queue st \<noteq> []"
    and step: "update_step (recording env) self st (l, w) = (Inr st1, (l1, w1))"
  shows "all_accounted self st1 l1"
  using step
proof (cases rule: update_step_cases)
  case (discard t c n r sc sr)
  from rec_is_ancestor [OF discard(3)]
  have q: "quiet l l1" and ts: "tested l1 (path r) c sc" by simp_all
  from q have sub: "set l \<subseteq> set l1" by (rule quiet_subset)
  from q have m: "met self l1 = met self l" by (simp add: met_def quiet_def)
  have a: "accounted l st d \<Longrightarrow> accounted l1 st1 d" for d
    unfolding discard(4)
    by (rule accounted_discard [OF _ ne discard(1) discard(2) ts sub])
  have "followed l1 (version_selector_map st1)"
    using followed_mono [OF sub] inv by (simp add: all_accounted_def discard(4))
  with inv m a show ?thesis by (simp add: all_accounted_def)
next
  case (select t c n r ds wa q' sm')
  obtain la wb where wa: "wa = (la, wb)" by (cases wa) auto
  from rec_get_dependencies [OF select(3) [unfolded wa]]
  have la: "la = l @ [Read r ds]" by simp
  from examine_rec [OF select(4) [unfolded wa]] obtain xs
    where p: "prefix la l1"
      and sq: "set (butlast (queue st)) \<subseteq> set q'"
      and wl: "\<forall>d \<in> set ds. was_looked l1 d"
      and lu: "looked_up l1 = looked_up la @ xs"
      and xs: "\<forall>x \<in> set xs. (revision x, name x, x) \<in> set (map snd q')"
    by blast
  have sla: "set la \<subseteq> set l1" using p by (rule set_mono_prefix)
  have sub: "set l \<subseteq> set l1" using la sla by auto
  have rd: "Read r ds \<in> set l1" using la sla by auto
  have lu': "looked_up l1 = looked_up l @ xs"
    using lu la by (simp add: looked_up_append) (simp add: looked_up_def)
  have a: "accounted l st d \<Longrightarrow> accounted l1 st1 d" for d
    unfolding select(5)
    by (rule accounted_select [OF _ ne select(1) select(2) sub sq])
  have xq: "\<forall>x \<in> set xs. accounted l1 st1 x"
    using xs by (auto simp: accounted_def queued_def select(5))
  have m: "\<forall>d \<in> set (met self l1). accounted l1 st1 d"
    using inv a xq by (auto simp: all_accounted_def met_def lu')
  have "followed l1 (version_selector_map st)"
    using followed_mono [OF sub] inv by (simp add: all_accounted_def)
  from followed_append [OF this rd wl]
  have "followed l1 (version_selector_map st1)" by (simp add: select(5))
  with m show ?thesis by (simp add: all_accounted_def)
qed

lemma sources_recorded_step:
  assumes inv: "sources_recorded self st l"
    and step: "update_step (recording env) self st (l, w) = (Inr st1, (l1, w1))"
  shows "sources_recorded self st1 l1"
  using step
proof (cases rule: update_step_cases)
  case (discard t c n r sc sr)
  from rec_is_ancestor [OF discard(3)] have q: "quiet l l1" by simp
  then have "sourced self l1 = sourced self l" by (simp add: sourced_def quiet_def)
  with inv show ?thesis by (simp add: sources_recorded_def discard(4))
next
  case (select t c n r ds wa q' sm')
  obtain la wb where wa: "wa = (la, wb)" by (cases wa) auto
  from rec_get_dependencies [OF select(3) [unfolded wa]]
  have la: "la = l @ [Read r ds]" by simp
  from examine_rec [OF select(4) [unfolded wa]] obtain xs
    where le: "source_map st \<subseteq>\<^sub>m sm'"
      and lu: "looked_up l1 = looked_up la @ xs"
      and xs: "\<forall>x \<in> set xs. sm' (name x) = Some (source x)"
    by blast
  have lu': "looked_up l1 = looked_up l @ xs"
    using lu la by (simp add: looked_up_append) (simp add: looked_up_def)
  have up: "source_map st a = Some b \<Longrightarrow> sm' a = Some b" for a b
    using le by (auto simp: map_le_def dom_def)
  show ?thesis
    using inv xs by (auto simp: sources_recorded_def sourced_def lu' select(5) up)
qed

lemma update_select_rec_result:
  assumes sel: "update_select (recording env) self ([], w) = Some (Inr st, (l1, w1))"
  shows "all_accounted self st l1 \<and> sources_recorded self st l1 \<and> queue st = []"
proof -
  from sel obtain q sm l0 w0
    where sd: "seed (recording env) (ws_manifest self) ([], Map.empty) ([], w)
               = (Inr (q, sm), (l0, w0))"
      and lp: "update_loop (recording env) self
                 \<lparr>queue = sort_key (\<lambda>tup. fst tup) q, version_selector_map = [],
                  source_map = sm\<rparr> (l0, w0) = Some (Inr st, (l1, w1))"
    by (auto simp: update_select_def split: prod.splits sum.splits)
  let ?st0 = "\<lparr>queue = sort_key (\<lambda>tup. fst tup) q, version_selector_map = [],
               source_map = sm\<rparr>"
  let ?I = "\<lambda>st (lw :: event list \<times> 'a).
              all_accounted self st (fst lw) \<and> sources_recorded self st (fst lw)"
  from seed_rec [OF sd]
  have q0: "quiet [] l0"
    and qs: "\<forall>r \<in> set (ws_manifest self). (revision r, name r, r) \<in> set (map snd q)"
    and ls: "\<forall>r \<in> set (last_of_name (ws_manifest self)). sm (name r) = Some (source r)"
    by blast+
  from q0 have lu0: "looked_up l0 = []" by (simp add: quiet_def looked_up_def)
  have i0: "?I ?st0 (l0, w0)"
    using qs ls lu0
    by (auto simp: all_accounted_def accounted_def queued_def sources_recorded_def met_def
        sourced_def followed_def)
  have "?I st (l1, w1) \<and> queue st = []"
  proof (rule update_loop_rule [where I = ?I, OF lp i0])
    fix x v x1 v1
    assume i: "?I x v" and ne: "queue x \<noteq> []"
      and s: "update_step (recording env) self x v = (Inr x1, v1)"
    obtain a b where v: "v = (a, b)" by (cases v) auto
    obtain a1 b1 where v1: "v1 = (a1, b1)" by (cases v1) auto
    from i ne s v v1 show "?I x1 v1"
      using all_accounted_step [of self x a env b x1 a1 b1]
        sources_recorded_step [of self x a env b x1 a1 b1]
      by simp
  qed
  then show ?thesis by simp
qed

lemma update_recorded_selection:
  assumes "update env self d = Some (Inr self', d')"
  obtains log st w1
  where "update_select env self (outside d) = Some (Inr st, w1)"
    and "update_select (recording env) self ([], outside d) = Some (Inr st, (log, w1))"
    and "all_accounted self st log" and "sources_recorded self st log" and "queue st = []"
proof -
  from assms obtain st w1
    where sel: "update_select env self (outside d) = Some (Inr st, w1)"
    by (rule update_success)
  from update_select_recorded [OF sel] obtain log
    where rec: "update_select (recording env) self ([], outside d) = Some (Inr st, (log, w1))"
    by blast
  from update_select_rec_result [OF rec] sel rec that show thesis by blast
qed

text \<open>
  C1, as amended. In every resolution that succeeds, the selection is followed (the
  manifest of every selected package has been read at the selected commit, and every
  dependency that it declares has been looked up), and every package of the root manifest
  and every dependency that was looked up is honoured: the selection holds a commit
  \<open>c\<close> for its name, and its own commit is \<open>c\<close> or was answered, by a run of
  \<^verbatim>\<open>git merge-base --is-ancestor\<close> in the directory of the dependency during this
  resolution, to be an ancestor of \<open>c\<close>. The record \<open>log\<close> is that of the same
  resolution in the recording of the world, which selects the same packages and leaves the
  world in the same state. The dependencies covered are those of the manifests of selected
  packages at their selected commits, not those of every reachable manifest.
\<close>

theorem recency_dominates:
  assumes "update env self d = Some (Inr self', d')"
  shows "\<exists>log st w1. update_select env self (outside d) = Some (Inr st, w1)
     \<and> update_select (recording env) self ([], outside d) = Some (Inr st, (log, w1))
     \<and> followed log (version_selector_map st)
     \<and> (\<forall>x \<in> set (met self log). honoured log (version_selector_map st) x)"
proof -
  from assms obtain log st w1
    where sel: "update_select env self (outside d) = Some (Inr st, w1)"
      and rec: "update_select (recording env) self ([], outside d) = Some (Inr st, (log, w1))"
      and acc: "all_accounted self st log" and e: "queue st = []"
    by (rule update_recorded_selection)
  from acc have f: "followed log (version_selector_map st)"
    by (simp add: all_accounted_def)
  have "\<forall>x \<in> set (met self log). honoured log (version_selector_map st) x"
    using acc e by (simp add: all_accounted_def accounted_def queued_def)
  with sel rec f show ?thesis by blast
qed

theorem recency_dominates_witness:
  "update env_recency ws_recency no_lock =
       Some (Inr (ws_recency\<lparr>ws_lock := Some [pkg ''b'' ''/srv/b.git'' ''B1'',
                                               pkg ''a'' ''/srv/a.git'' ''A2'']\<rparr>),
             \<lparr>outside = (), lockfile = Some [pkg ''b'' ''/srv/b.git'' ''B1'',
                                             pkg ''a'' ''/srv/a.git'' ''A2'']\<rparr>)
   \<and> (\<exists>log st w1. update_select env_recency ws_recency () = Some (Inr st, w1)
        \<and> update_select (recording env_recency) ws_recency ([], ()) = Some (Inr st, (log, w1))
        \<and> followed log (version_selector_map st)
        \<and> (\<forall>x \<in> set (met ws_recency log). honoured log (version_selector_map st) x))"
proof -
  have up: "update env_recency ws_recency no_lock =
       Some (Inr (ws_recency\<lparr>ws_lock := Some [pkg ''b'' ''/srv/b.git'' ''B1'',
                                               pkg ''a'' ''/srv/a.git'' ''A2'']\<rparr>),
             \<lparr>outside = (), lockfile = Some [pkg ''b'' ''/srv/b.git'' ''B1'',
                                             pkg ''a'' ''/srv/a.git'' ''A2'']\<rparr>)"
    by (simp add: env_recency_def ws_recency_def run_update)
  from recency_dominates [OF up] up show ?thesis by (simp add: no_lock_def)
qed

text \<open>
  The claim C1 as written, for the manifest of any reachable dependency, fails. The
  root asks for \<open>a\<close> at \<open>A2\<close> and \<open>b\<close> at \<open>B1\<close>, and \<open>a\<close> at
  \<open>A2\<close> asks for \<open>c\<close> at \<open>C1\<close>. The manifest of \<open>b\<close> asks for \<open>a\<close>
  at \<open>A1\<close>, an ancestor of \<open>A2\<close>: this tuple is popped and discarded, and the
  manifest of \<open>a\<close> at \<open>A1\<close>, which asks for \<open>c\<close> at \<open>C9\<close>, is never
  read. The resolution succeeds and selects \<open>c\<close> at \<open>C1\<close>, of which \<open>C9\<close>
  is not an ancestor.
\<close>

theorem recency_discarded_counterexample:
  "update env_discarded ws_discarded no_lock =
     Some (Inr (ws_discarded\<lparr>ws_lock := Some [pkg ''a'' ''/srv/a.git'' ''A2'',
                                               pkg ''b'' ''/srv/b.git'' ''B1'',
                                               pkg ''c'' ''/srv/c.git'' ''C1'']\<rparr>),
           \<lparr>outside = (), lockfile = Some [pkg ''a'' ''/srv/a.git'' ''A2'',
                                           pkg ''b'' ''/srv/b.git'' ''B1'',
                                           pkg ''c'' ''/srv/c.git'' ''C1'']\<rparr>)
   \<and> fst (get_dependencies env_discarded (pkg ''b'' ''/srv/b.git'' ''B1'') ''/ws'' ())
       = Inr [pkg ''a'' ''/srv/a.git'' ''A1'']
   \<and> fst (get_dependencies env_discarded (pkg ''a'' ''/srv/a.git'' ''A1'') ''/ws'' ())
       = Inr [pkg ''c'' ''/srv/c.git'' ''C9'']
   \<and> fst (is_ancestor (subprocess_run env_discarded) (pkg ''c'' ''/srv/c.git'' ''C9'')
            ''C9'' (Some ''C1'') ())
       = Inr False"
  by (simp add: env_discarded_def ws_discarded_def run_update)




end
